theory Spec2Isabelle
  imports Complex_Main "HOL-Library.Log_Nat"
begin

section \<open>Python float arithmetic\<close>

text \<open>
  Every number of the toolkit is a Python \<^verbatim>\<open>float\<close>. A float operation is the exact
  operation on the reals followed by rounding to a representable number, so each function
  of the model takes the rounding function as its first argument \<open>rnd\<close>:
  \<^item> \<open>exact\<close> rounds nothing: the program in exact arithmetic, the reading in which the
    formulas of the documentation are equations;
  \<^item> \<open>binary64\<close> rounds to the nearest IEEE 754 double, ties to even, with gradual
    underflow (subnormals, and zero below half the least subnormal).
    For \<^verbatim>\<open>**\<close> and \<^verbatim>\<open>math.log\<close> this is the correctly rounded result, which the C
    library approximates; the runs on doubles below use them only where the two agree
    (a first power, the fourth power \<open>0x1.0111111111111p+0 ** 4 = 0x1.044b1cc0be9eep+0\<close>,
    a power of \<open>1.0\<close>, a square of \<open>- 1\<close>, powers far below the least subnormal, the
    logarithm of \<open>1.0\<close>).
  Integer arguments (\<^verbatim>\<open>months\<close>, \<^verbatim>\<open>n\<close>, \<^verbatim>\<open>max_iter\<close>, loop indices) are \<open>int\<close>.

  The values of the model are the real numbers, so it has neither \<^verbatim>\<open>inf\<close> nor \<^verbatim>\<open>nan\<close>:
  \<open>binary64\<close> puts no upper bound on the exponent. Where a Python result exceeds the
  largest double (about \<open>1.8e308\<close>), \<^verbatim>\<open>+\<close>, \<^verbatim>\<open>-\<close>, \<^verbatim>\<open>*\<close> and \<^verbatim>\<open>/\<close> give \<^verbatim>\<open>inf\<close> (and
  \<^verbatim>\<open>inf - inf\<close> gives \<^verbatim>\<open>nan\<close>) and \<^verbatim>\<open>**\<close> raises \<^verbatim>\<open>OverflowError\<close>, while the model
  goes on with a finite number: beyond that range the model says nothing about the
  program. Accordingly, a run on doubles is used below only at a concrete input whose
  intermediate values all lie far inside the range (the counterexamples), and a
  statement made for every rounding concerns only what does not depend on the size of
  a result: which calls raise \<^verbatim>\<open>ValueError\<close> (raised by the checks of the arguments
  alone), that \<^verbatim>\<open>-\<close>, \<^verbatim>\<open>*\<close> and \<^verbatim>\<open>/\<close> by a non-zero divisor do not raise, the early
  return of \<^verbatim>\<open>doubling_time\<close>, and the ends of the bracket of \<^verbatim>\<open>irr_bisect\<close>, which are
  doubles between \<open>- 0.99\<close> and \<open>10\<close>. Every other general statement is made in exact
  arithmetic and says so.
\<close>

type_synonym rounding = "real \<Rightarrow> real"

definition exact :: rounding where
  "exact x = x"

definition round_half_even :: "real \<Rightarrow> int" where
  "round_half_even x =
     (let f = \<lfloor>x\<rfloor>; d = x - of_int f
      in if d < 1/2 then f else if 1/2 < d then f + 1 else if even f then f else f + 1)"

text \<open>\<open>ilog2 x\<close> is the exponent of \<open>x \<noteq> 0\<close>: \<open>2 powi ilog2 x \<le> \<bar>x\<bar> < 2 powi (ilog2 x + 1)\<close>.\<close>

definition ilog2 :: "real \<Rightarrow> int" where
  "ilog2 x =
     (if 1 \<le> \<bar>x\<bar> then bitlen \<lfloor>\<bar>x\<bar>\<rfloor> - 1
      else (let k = bitlen \<lfloor>1 / \<bar>x\<bar>\<rfloor> - 1
            in if \<bar>x\<bar> * 2 powi k = 1 then - k else - k - 1))"

text \<open>
  A double is \<open>m * 2 powi e\<close> with \<open>\<bar>m\<bar> < 2 ^ 53\<close> and \<open>- 1074 \<le> e\<close>: 53 bits of
  significand in the normal range, fewer in the subnormal range, where the exponent
  stays at \<open>- 1074\<close>.
\<close>

definition binary64 :: rounding where
  "binary64 x =
     (if x = 0 then 0
      else (let e = max (ilog2 x - 52) (- 1074)
            in of_int (round_half_even (x / 2 powi e)) * 2 powi e))"

datatype pyerr = ValueError | ZeroDivisionError

text \<open>
  \<^verbatim>\<open>float ** float\<close> is a complex number when the base is negative and the exponent is
  not an integer, so the value of a power is a \<open>pynum\<close>.
\<close>

datatype pynum = PyFloat real | PyComplex complex

definition py_float :: "rounding \<Rightarrow> int \<Rightarrow> real" where
  "py_float rnd n = rnd (of_int n)"

definition py_div :: "rounding \<Rightarrow> real \<Rightarrow> real \<Rightarrow> pyerr + real" where
  "py_div rnd a b = (if b = 0 then Inl ZeroDivisionError else Inr (rnd (a / b)))"

text \<open>
  \<^verbatim>\<open>a ** n\<close> for a float \<open>a\<close> and an int \<open>n\<close>. (The \<^verbatim>\<open>OverflowError\<close> of a result
  beyond the largest double is outside the model, here and in \<open>py_pow\<close>.)
\<close>

definition py_pow_int :: "rounding \<Rightarrow> real \<Rightarrow> int \<Rightarrow> pyerr + real" where
  "py_pow_int rnd a n =
     (if a = 0 \<and> n < 0 then Inl ZeroDivisionError else Inr (rnd (a powi n)))"

text \<open>\<^verbatim>\<open>a ** b\<close> for floats \<open>a\<close> and \<open>b\<close>.\<close>

definition py_pow :: "rounding \<Rightarrow> real \<Rightarrow> real \<Rightarrow> pyerr + pynum" where
  "py_pow rnd a b =
     (if b = 0 then Inr (PyFloat 1)
      else if a = 0 then (if b < 0 then Inl ZeroDivisionError else Inr (PyFloat 0))
      else if 0 < a then Inr (PyFloat (rnd (a powr b)))
      else if b = of_int \<lfloor>b\<rfloor> then Inr (PyFloat (rnd (a powi \<lfloor>b\<rfloor>)))
      else (let len = rnd (\<bar>a\<bar> powr b); phase = rnd (rnd pi * b)
            in Inr (PyComplex (Complex (rnd (len * rnd (cos phase)))
                                       (rnd (len * rnd (sin phase)))))))"

text \<open>\<^verbatim>\<open>x * z\<close>, \<^verbatim>\<open>x / z\<close> and \<^verbatim>\<open>z - x\<close> for a float \<open>x\<close> and the value \<open>z\<close> of a power.\<close>

definition num_mult :: "rounding \<Rightarrow> real \<Rightarrow> pynum \<Rightarrow> pynum" where
  "num_mult rnd x z =
     (case z of
        PyFloat y \<Rightarrow> PyFloat (rnd (x * y))
      | PyComplex c \<Rightarrow> PyComplex (Complex (rnd (x * Re c)) (rnd (x * Im c))))"

definition num_rdiv :: "rounding \<Rightarrow> real \<Rightarrow> pynum \<Rightarrow> pyerr + pynum" where
  "num_rdiv rnd x z =
     (case z of
        PyFloat y \<Rightarrow> (if y = 0 then Inl ZeroDivisionError else Inr (PyFloat (rnd (x / y))))
      | PyComplex c \<Rightarrow>
          (if c = 0 then Inl ZeroDivisionError
           else Inr (PyComplex (Complex (rnd (Re (of_real x / c))) (rnd (Im (of_real x / c)))))))"

definition num_sub :: "rounding \<Rightarrow> pynum \<Rightarrow> real \<Rightarrow> pynum" where
  "num_sub rnd z x =
     (case z of
        PyFloat y \<Rightarrow> PyFloat (rnd (y - x))
      | PyComplex c \<Rightarrow> PyComplex (Complex (rnd (Re c - x)) (Im c)))"

text \<open>
  \<^verbatim>\<open>sum(xs)\<close>: the running total starts at 0 and adds from the left. (Later versions
  of CPython compensate the rounding errors of such a sum; in exact arithmetic the two
  agree, and no result on doubles below depends on the rounding of a sum.)
\<close>

definition py_sum :: "rounding \<Rightarrow> real list \<Rightarrow> real" where
  "py_sum rnd xs = foldl (\<lambda>acc x. rnd (acc + x)) 0 xs"

section \<open>Loan amortization (loan.py)\<close>

text \<open>
  The fields of the result classes carry a prefix (\<open>row_\<close>, \<open>lr_\<close>, \<open>tv_\<close>, \<open>cr_\<close>,
  \<open>pr_\<close>), since several of them share their name with a function or a parameter.
\<close>

record AmortizationRow =
  row_month :: int
  row_payment :: real
  row_principal_part :: real
  row_interest_part :: real
  row_remaining_balance :: real
  row_cumulative_interest :: real
  row_cumulative_principal :: real

record LoanResult =
  lr_principal :: real
  lr_annual_rate :: real
  lr_months :: int
  lr_monthly_payment :: real
  lr_total_paid :: real
  lr_total_interest :: real
  lr_interest_ratio :: real
  lr_schedule :: "AmortizationRow list"

text \<open>
  \<^verbatim>\<open>principal * (rm * (1 + rm) ** months) / ((1 + rm) ** months - 1)\<close>: the two powers are
  the same value \<open>g\<close>; the product is formed first, then divided.
\<close>

definition monthly_payment :: "rounding \<Rightarrow> real \<Rightarrow> real \<Rightarrow> int \<Rightarrow> pyerr + real" where
  "monthly_payment rnd principal annual_rate months =
     (if principal \<le> 0 then Inl ValueError
      else if months < 1 then Inl ValueError
      else (let rm = rnd (annual_rate / 12)
            in if rm = 0 then py_div rnd principal (py_float rnd months)
               else (case py_pow_int rnd (rnd (1 + rm)) months of
                       Inl e \<Rightarrow> Inl e
                     | Inr g \<Rightarrow> py_div rnd (rnd (principal * rnd (rm * g))) (rnd (g - 1)))))"
  for principal :: real

text \<open>The variables of the loop of \<^verbatim>\<open>schedule\<close>, and one pass through its body for month \<open>k\<close>.\<close>

record loop_state =
  st_balance :: real
  st_payment :: real
  st_cum_interest :: real
  st_cum_principal :: real
  st_rows :: "AmortizationRow list"

definition schedule_step :: "rounding \<Rightarrow> real \<Rightarrow> loop_state \<Rightarrow> int \<Rightarrow> loop_state" where
  "schedule_step rnd rm s k =
     (let interest = rnd (st_balance s * rm);
          princ0 = rnd (st_payment s - interest);
          overshoot = (st_balance s < princ0);
          princ = (if overshoot then st_balance s else princ0);
          payment = (if overshoot then rnd (princ + interest) else st_payment s);
          balance0 = rnd (st_balance s - princ);
          balance = (if balance0 < 0 then 0 else balance0);
          cum_interest = rnd (st_cum_interest s + interest);
          cum_principal = rnd (st_cum_principal s + princ)
      in \<lparr>st_balance = balance, st_payment = payment,
          st_cum_interest = cum_interest, st_cum_principal = cum_principal,
          st_rows = st_rows s @
            [\<lparr>row_month = k, row_payment = payment, row_principal_part = princ,
              row_interest_part = interest, row_remaining_balance = balance,
              row_cumulative_interest = cum_interest,
              row_cumulative_principal = cum_principal\<rparr>]\<rparr>)"

definition schedule_loop :: "rounding \<Rightarrow> real \<Rightarrow> real \<Rightarrow> real \<Rightarrow> int \<Rightarrow> loop_state" where
  "schedule_loop rnd rm principal payment months =
     foldl (schedule_step rnd rm)
       \<lparr>st_balance = principal, st_payment = payment, st_cum_interest = 0,
        st_cum_principal = 0, st_rows = []\<rparr>
       [1..months]"
  for principal :: real

definition schedule :: "rounding \<Rightarrow> real \<Rightarrow> real \<Rightarrow> int \<Rightarrow> pyerr + LoanResult" where
  "schedule rnd principal annual_rate months =
     (let rm = rnd (annual_rate / 12)
      in case monthly_payment rnd principal annual_rate months of
           Inl e \<Rightarrow> Inl e
         | Inr payment \<Rightarrow>
             (let s = schedule_loop rnd rm principal payment months;
                  rows = st_rows s
              in Inr \<lparr>lr_principal = principal, lr_annual_rate = annual_rate,
                      lr_months = months,
                      lr_monthly_payment = (case rows of [] \<Rightarrow> 0 | r # _ \<Rightarrow> row_payment r),
                      lr_total_paid = py_sum rnd (map row_payment rows),
                      lr_total_interest = st_cum_interest s,
                      lr_interest_ratio =
                        (if 0 < principal then rnd (st_cum_interest s / principal) else 0),
                      lr_schedule = rows\<rparr>))"
  for principal :: real

definition affordable_principal :: "rounding \<Rightarrow> real \<Rightarrow> real \<Rightarrow> int \<Rightarrow> pyerr + real" where
  "affordable_principal rnd monthly_budget annual_rate months =
     (let rm = rnd (annual_rate / 12)
      in if rm = 0 then Inr (rnd (monthly_budget * py_float rnd months))
         else (case py_pow_int rnd (rnd (1 + rm)) months of
                 Inl e \<Rightarrow> Inl e
               | Inr g \<Rightarrow>
                   (case py_div rnd (rnd (g - 1)) (rnd (rm * g)) of
                      Inl e \<Rightarrow> Inl e
                    | Inr factor \<Rightarrow> Inr (rnd (monthly_budget * factor)))))"

section \<open>Time value of money (time_value.py)\<close>

record TimeValueResult =
  tv_present_value :: pynum
  tv_future_value :: pynum
  tv_rate :: real
  tv_years :: real
  tv_growth_factor :: pynum
  tv_discount_factor :: pynum

definition future_value :: "rounding \<Rightarrow> real \<Rightarrow> real \<Rightarrow> real \<Rightarrow> pyerr + pynum" where
  "future_value rnd pv rate years =
     (case py_pow rnd (rnd (1 + rate)) years of
        Inl e \<Rightarrow> Inl e
      | Inr g \<Rightarrow> Inr (num_mult rnd pv g))"

definition present_value :: "rounding \<Rightarrow> real \<Rightarrow> real \<Rightarrow> real \<Rightarrow> pyerr + pynum" where
  "present_value rnd fv rate years =
     (case py_pow rnd (rnd (1 + rate)) years of
        Inl e \<Rightarrow> Inl e
      | Inr g \<Rightarrow> num_rdiv rnd fv g)"

definition analyze :: "rounding \<Rightarrow> real \<Rightarrow> real \<Rightarrow> real \<Rightarrow> pyerr + TimeValueResult" where
  "analyze rnd amount rate years =
     (case py_pow rnd (rnd (1 + rate)) years of
        Inl e \<Rightarrow> Inl e
      | Inr gf \<Rightarrow>
          (case num_rdiv rnd amount gf of
             Inl e \<Rightarrow> Inl e
           | Inr pv \<Rightarrow>
               (case num_rdiv rnd 1 gf of
                  Inl e \<Rightarrow> Inl e
                | Inr df \<Rightarrow>
                    Inr \<lparr>tv_present_value = pv, tv_future_value = num_mult rnd amount gf,
                         tv_rate = rate, tv_years = years, tv_growth_factor = gf,
                         tv_discount_factor = df\<rparr>)))"

text \<open>
  \<^verbatim>\<open>npv(r) = sum(cf / (1 + r) ** t for t, cf in enumerate(cashflows))\<close>: \<open>npv_from\<close> runs
  the sum from index \<open>t\<close> with the running total \<open>acc\<close>; a term that raises ends it.
\<close>

fun npv_from :: "rounding \<Rightarrow> real \<Rightarrow> nat \<Rightarrow> real \<Rightarrow> real list \<Rightarrow> pyerr + real" where
  "npv_from rnd r t acc [] = Inr acc"
| "npv_from rnd r t acc (cf # cfs) =
     (case py_pow_int rnd (rnd (1 + r)) (int t) of
        Inl e \<Rightarrow> Inl e
      | Inr d \<Rightarrow>
          (case py_div rnd cf d of
             Inl e \<Rightarrow> Inl e
           | Inr term \<Rightarrow> npv_from rnd r (Suc t) (rnd (acc + term)) cfs))"

definition npv :: "rounding \<Rightarrow> real list \<Rightarrow> real \<Rightarrow> pyerr + real" where
  "npv rnd cashflows r = npv_from rnd r 0 0 cashflows"

text \<open>
  The loop of \<^verbatim>\<open>irr_bisect\<close>, with the number of passes left: \<open>Some mid\<close> is the early
  \<^verbatim>\<open>return mid\<close>, and after the last pass the midpoint of the final bracket is returned.
\<close>

fun bisect_loop ::
  "rounding \<Rightarrow> real list \<Rightarrow> real \<Rightarrow> nat \<Rightarrow> real \<Rightarrow> real \<Rightarrow> pyerr + real" where
  "bisect_loop rnd cashflows tol 0 lo hi = Inr (rnd (rnd (lo + hi) / 2))"
| "bisect_loop rnd cashflows tol (Suc k) lo hi =
     (let mid = rnd (rnd (lo + hi) / 2)
      in case npv rnd cashflows mid of
           Inl e \<Rightarrow> Inl e
         | Inr val \<Rightarrow>
             if \<bar>val\<bar> < tol then Inr mid
             else (case npv rnd cashflows lo of
                     Inl e \<Rightarrow> Inl e
                   | Inr nlo \<Rightarrow>
                       if rnd (nlo * val) < 0
                       then bisect_loop rnd cashflows tol k lo mid
                       else bisect_loop rnd cashflows tol k mid hi))"

text \<open>\<open>None\<close> is Python's \<^verbatim>\<open>None\<close>; \<^verbatim>\<open>range(max_iter)\<close> is empty for \<open>max_iter \<le> 0\<close>.\<close>

definition irr_bisect :: "rounding \<Rightarrow> real list \<Rightarrow> real \<Rightarrow> int \<Rightarrow> pyerr + real option" where
  "irr_bisect rnd cashflows tol max_iter =
     (let lo = rnd (- 99 / 100); hi = 10
      in case npv rnd cashflows lo of
           Inl e \<Rightarrow> Inl e
         | Inr nlo \<Rightarrow>
             (case npv rnd cashflows hi of
                Inl e \<Rightarrow> Inl e
              | Inr nhi \<Rightarrow>
                  if 0 < rnd (nlo * nhi) then Inr None
                  else (case bisect_loop rnd cashflows tol (nat max_iter) lo hi of
                          Inl e \<Rightarrow> Inl e
                        | Inr r \<Rightarrow> Inr (Some r))))"

section \<open>Compound interest (compound_interest.py)\<close>

record CompoundResult =
  cr_principal :: real
  cr_rate :: real
  cr_n :: int
  cr_years :: real
  cr_amount :: pynum
  cr_interest_earned :: pynum
  cr_effective_annual_rate :: real

definition calculate :: "rounding \<Rightarrow> real \<Rightarrow> real \<Rightarrow> int \<Rightarrow> real \<Rightarrow> pyerr + CompoundResult" where
  "calculate rnd principal rate n years =
     (if principal \<le> 0 then Inl ValueError
      else if n < 1 then Inl ValueError
      else (case py_div rnd rate (py_float rnd n) of
              Inl e \<Rightarrow> Inl e
            | Inr q \<Rightarrow>
                (case py_pow rnd (rnd (1 + q)) (rnd (py_float rnd n * years)) of
                   Inl e \<Rightarrow> Inl e
                 | Inr g \<Rightarrow>
                     (case py_pow_int rnd (rnd (1 + q)) n of
                        Inl e \<Rightarrow> Inl e
                      | Inr g1 \<Rightarrow>
                          (let amount = num_mult rnd principal g
                           in Inr \<lparr>cr_principal = principal, cr_rate = rate, cr_n = n,
                                   cr_years = years, cr_amount = amount,
                                   cr_interest_earned = num_sub rnd amount principal,
                                   cr_effective_annual_rate = rnd (g1 - 1)\<rparr>)))))"
  for principal :: real

text \<open>\<^verbatim>\<open>float("inf")\<close> is the one value of the model that is not a real number.\<close>

datatype xfloat = Fin real | PInf

text \<open>\<^verbatim>\<open>math.log\<close> raises \<^verbatim>\<open>ValueError\<close> outside its domain.\<close>

definition math_log :: "rounding \<Rightarrow> real \<Rightarrow> pyerr + real" where
  "math_log rnd x = (if x \<le> 0 then Inl ValueError else Inr (rnd (ln x)))"

definition doubling_time :: "rounding \<Rightarrow> real \<Rightarrow> int \<Rightarrow> pyerr + xfloat" where
  "doubling_time rnd rate n =
     (if rate \<le> 0 then Inr PInf
      else (case py_div rnd rate (py_float rnd n) of
              Inl e \<Rightarrow> Inl e
            | Inr q \<Rightarrow>
                (case math_log rnd (rnd (1 + q)) of
                   Inl e \<Rightarrow> Inl e
                 | Inr l \<Rightarrow>
                     (case py_div rnd (rnd (ln 2)) (rnd (py_float rnd n * l)) of
                        Inl e \<Rightarrow> Inl e
                      | Inr d \<Rightarrow> Inr (Fin d)))))"

section \<open>Percentage arithmetic (percentage.py)\<close>

record PercentageResult =
  pr_part :: real
  pr_total :: real
  pr_percentage :: real
  pr_remaining :: real
  pr_ratio :: real

definition percentage_of :: "rounding \<Rightarrow> real \<Rightarrow> real \<Rightarrow> pyerr + PercentageResult" where
  "percentage_of rnd part total =
     (if total = 0 then Inl ValueError
      else Inr \<lparr>pr_part = part, pr_total = total,
                pr_percentage = rnd (rnd (part / total) * 100),
                pr_remaining = rnd (total - part), pr_ratio = rnd (part / total)\<rparr>)"
  for total :: real

definition find_total :: "rounding \<Rightarrow> real \<Rightarrow> real \<Rightarrow> pyerr + real" where
  "find_total rnd part percent =
     (if percent = 0 then Inl ValueError else py_div rnd (rnd (part * 100)) percent)"

definition change :: "rounding \<Rightarrow> real \<Rightarrow> real \<Rightarrow> pyerr + real" where
  "change rnd old new =
     (if old = 0 then Inl ValueError
      else (case py_div rnd (rnd (new - old)) \<bar>old\<bar> of
              Inl e \<Rightarrow> Inl e
            | Inr q \<Rightarrow> Inr (rnd (q * 100))))"

definition margin :: "rounding \<Rightarrow> real \<Rightarrow> real \<Rightarrow> pyerr + real" where
  "margin rnd revenue cost =
     (if revenue = 0 then Inl ValueError
      else (case py_div rnd (rnd (revenue - cost)) revenue of
              Inl e \<Rightarrow> Inl e
            | Inr q \<Rightarrow> Inr (rnd (q * 100))))"

definition markup :: "rounding \<Rightarrow> real \<Rightarrow> real \<Rightarrow> pyerr + real" where
  "markup rnd cost selling_price =
     (if cost = 0 then Inl ValueError
      else (case py_div rnd (rnd (selling_price - cost)) cost of
              Inl e \<Rightarrow> Inl e
            | Inr q \<Rightarrow> Inr (rnd (q * 100))))"

section \<open>Auxiliary notions for the proofs\<close>

text \<open>
  The exponent that \<open>binary64\<close> rounds at, and the numbers it leaves unchanged: the
  doubles, with no bound on the exponent from above.
\<close>

definition exponent64 :: "real \<Rightarrow> int" where
  "exponent64 x = max (ilog2 x - 52) (- 1074)"

definition representable :: "real \<Rightarrow> bool" where
  "representable x \<longleftrightarrow> (\<exists>m e. x = of_int m * 2 powi e \<and> \<bar>m\<bar> \<le> 2 ^ 53 \<and> - 1074 \<le> e)"

text \<open>
  What the proof about the bracket of \<^verbatim>\<open>irr_bisect\<close> needs of a rounding: it is
  monotone, it rounds a rounded number to itself, and twice a rounded number is rounded.
\<close>

definition sound_rounding :: "rounding \<Rightarrow> bool" where
  "sound_rounding rnd \<longleftrightarrow>
     (\<forall>x y. x \<le> y \<longrightarrow> rnd x \<le> rnd y) \<and>
     (\<forall>x. rnd (rnd x) = rnd x) \<and>
     (\<forall>x. rnd x = x \<longrightarrow> rnd (2 * x) = 2 * x)"

text \<open>
  Two predicates for the proofs about \<^verbatim>\<open>schedule\<close>: what holds of the rows written so
  far, and what ties the loop variables to them.
\<close>

definition rows_ok :: "AmortizationRow list \<Rightarrow> bool" where
  "rows_ok rows \<longleftrightarrow>
     (\<forall>row \<in> set rows. row_payment row = row_principal_part row + row_interest_part row \<and>
                       0 \<le> row_remaining_balance row) \<and>
     sorted_wrt (\<ge>) (map row_remaining_balance rows) \<and>
     (\<forall>i < length rows.
        row_cumulative_interest (rows ! i)
          = sum_list (map row_interest_part (take (Suc i) rows)) \<and>
        row_cumulative_principal (rows ! i)
          = sum_list (map row_principal_part (take (Suc i) rows)))"

definition schedule_inv :: "real \<Rightarrow> loop_state \<Rightarrow> bool" where
  "schedule_inv rm s \<longleftrightarrow>
     0 \<le> st_balance s \<and> st_balance s * rm \<le> st_payment s \<and>
     rows_ok (st_rows s) \<and>
     (\<forall>row \<in> set (st_rows s). st_balance s \<le> row_remaining_balance row) \<and>
     st_cum_interest s = sum_list (map row_interest_part (st_rows s)) \<and>
     st_cum_principal s = sum_list (map row_principal_part (st_rows s))"

section \<open>Properties of the rounding to doubles\<close>

subsection \<open>Rounding to the nearest integer, ties to even\<close>

lemma round_half_even_of_int [simp]: "round_half_even (of_int m) = m"
  by (simp add: round_half_even_def)

lemma round_half_even_cases:
  "round_half_even x = \<lfloor>x\<rfloor> \<or> round_half_even x = \<lfloor>x\<rfloor> + 1"
  by (simp add: round_half_even_def Let_def)

lemma round_half_even_lower: "x - 1 / 2 \<le> of_int (round_half_even x)"
  by (auto simp add: round_half_even_def Let_def not_less) linarith+

lemma round_half_even_upper: "of_int (round_half_even x) \<le> x + 1 / 2"
  by (auto simp add: round_half_even_def Let_def not_less) linarith+

lemma round_half_even_mono:
  assumes "x \<le> y"
  shows "round_half_even x \<le> round_half_even y"
proof (cases "\<lfloor>x\<rfloor> = \<lfloor>y\<rfloor>")
  case True
  have "x - of_int \<lfloor>y\<rfloor> \<le> y - of_int \<lfloor>y\<rfloor>" using assms by simp
  then show ?thesis using True by (auto simp add: round_half_even_def Let_def)
next
  case False
  then have "\<lfloor>x\<rfloor> < \<lfloor>y\<rfloor>" using assms floor_mono [of x y] by linarith
  then have "\<lfloor>x\<rfloor> + 1 \<le> \<lfloor>y\<rfloor>" by simp
  moreover have "round_half_even x \<le> \<lfloor>x\<rfloor> + 1"
    using round_half_even_cases [of x] by linarith
  moreover have "\<lfloor>y\<rfloor> \<le> round_half_even y"
    using round_half_even_cases [of y] by linarith
  ultimately show ?thesis by linarith
qed

lemma round_half_even_ge: "of_int m \<le> x \<Longrightarrow> m \<le> round_half_even x"
  using round_half_even_mono [of "of_int m" x] by simp

lemma round_half_even_le: "x \<le> of_int m \<Longrightarrow> round_half_even x \<le> m"
  using round_half_even_mono [of x "of_int m"] by simp

lemma round_half_even_minus: "round_half_even (- x) = - round_half_even x"
proof (cases "x = of_int \<lfloor>x\<rfloor>")
  case True
  then obtain m where "x = of_int m" ..
  then have "- x = of_int (- m)" by simp
  then show ?thesis using \<open>x = of_int m\<close> by (simp only: round_half_even_of_int)
next
  case False
  define f where "f = \<lfloor>x\<rfloor>"
  define d where "d = x - of_int f"
  have d: "0 < d" "d < 1" using False by (simp_all add: d_def f_def) linarith+
  have fl: "\<lfloor>- x\<rfloor> = - f - 1"
    using d by (simp add: floor_eq_iff d_def) 
  have dm: "- x - of_int (- f - 1) = 1 - d" by (simp add: d_def)
  have ev: "even (- f - 1) \<longleftrightarrow> odd f" by simp
  show ?thesis
    unfolding round_half_even_def Let_def fl dm ev f_def [symmetric] d_def [symmetric]
    using d by auto
qed

subsection \<open>The exponent\<close>

lemma bitlen_real_bounds:
  fixes y :: real
  assumes "1 \<le> y"
  shows "2 ^ nat (bitlen \<lfloor>y\<rfloor> - 1) \<le> y \<and> y < 2 ^ nat (bitlen \<lfloor>y\<rfloor> - 1) * 2
         \<and> 1 \<le> bitlen \<lfloor>y\<rfloor>"
proof -
  define m where "m = \<lfloor>y\<rfloor>"
  have m: "0 < m" using assms by (simp add: m_def)
  have b: "2 ^ nat (bitlen m - 1) \<le> m" "m < 2 ^ nat (bitlen m)"
    using bitlen_bounds [OF m] by simp_all
  have b1: "1 \<le> bitlen m" using m bitlen_eq_zero_iff [of m] bitlen_nonneg [of m] by linarith
  then have "nat (bitlen m) = Suc (nat (bitlen m - 1))" by simp
  then have "m < 2 ^ nat (bitlen m - 1) * 2" using b(2) by simp
  then have "m + 1 \<le> 2 ^ nat (bitlen m - 1) * 2" by simp
  then have "of_int (m + 1) \<le> (of_int (2 ^ nat (bitlen m - 1) * 2) :: real)"
    by (simp only: of_int_le_iff)
  then have up: "of_int m + 1 \<le> (2 :: real) ^ nat (bitlen m - 1) * 2" by simp
  have "y < of_int m + 1" by (simp add: m_def)
  then have "y < 2 ^ nat (bitlen m - 1) * 2" using up by linarith
  moreover have "(of_int (2 ^ nat (bitlen m - 1)) :: real) \<le> of_int m"
    using b(1) by (simp only: of_int_le_iff)
  then have "(2 :: real) ^ nat (bitlen m - 1) \<le> of_int m" by simp
  then have "2 ^ nat (bitlen m - 1) \<le> y"
    using of_int_floor_le [of y] unfolding m_def by linarith
  ultimately show ?thesis using b1 by (simp add: m_def)
qed

lemma ilog2_bounds:
  assumes "x \<noteq> 0"
  shows "2 powi (ilog2 x) \<le> \<bar>x\<bar> \<and> \<bar>x\<bar> < 2 powi (ilog2 x + 1)"
proof (cases "1 \<le> \<bar>x\<bar>")
  case True
  define k where "k = bitlen \<lfloor>\<bar>x\<bar>\<rfloor> - 1"
  have il: "ilog2 x = k" using True by (simp add: ilog2_def k_def)
  have b: "2 ^ nat k \<le> \<bar>x\<bar>" "\<bar>x\<bar> < 2 ^ nat k * 2" "0 \<le> k"
    using bitlen_real_bounds [OF True] by (simp_all add: k_def)
  have "2 powi k = (2 :: real) ^ nat k" using b(3) by (simp add: power_int_def)
  moreover have "2 powi (k + 1) = (2 :: real) ^ nat k * 2"
    using b(3) by (simp add: power_int_def nat_add_distrib)
  ultimately show ?thesis using b il by simp
next
  case False
  define y where "y = 1 / \<bar>x\<bar>"
  define k where "k = bitlen \<lfloor>y\<rfloor> - 1"
  have ax: "0 < \<bar>x\<bar>" "\<bar>x\<bar> < 1" using assms False by simp_all
  have y1: "1 \<le> y" using ax by (simp add: y_def)
  have b: "2 ^ nat k \<le> y" "y < 2 ^ nat k * 2" "0 \<le> k"
    using bitlen_real_bounds [OF y1] by (simp_all add: k_def)
  have p: "(2 :: real) powi k = 2 ^ nat k" using b(3) by (simp add: power_int_def)
  have up: "\<bar>x\<bar> * 2 ^ nat k \<le> 1"
    using b(1) ax by (simp add: y_def field_simps)
  have lo: "1 < \<bar>x\<bar> * (2 ^ nat k * 2)"
    using b(2) ax by (simp add: y_def field_simps)
  have m1: "2 powi (- k) = 1 / (2 :: real) ^ nat k"
    using b(3) by (simp add: power_int_minus p field_simps)
  have m2: "2 powi (- k - 1) = 1 / ((2 :: real) ^ nat k * 2)"
  proof -
    have "- k - 1 = - (k + 1)" by simp
    then have "(2::real) powi (- k - 1) = 2 powi (- (k + 1))" by (rule arg_cong)
    also have "\<dots> = inverse (2 powi (k + 1))" by (rule power_int_minus)
    also have "(2::real) powi (k + 1) = 2 ^ nat k * 2"
      using b(3) by (simp add: power_int_def nat_add_distrib)
    finally show ?thesis by (simp add: field_simps)
  qed
  have m3: "2 powi (- k + 1) = 2 / (2 :: real) ^ nat k"
  proof -
    have "(2 :: real) powi (- k + 1) = 2 powi (- k) * 2 powi 1"
      by (rule power_int_add) simp
    then show ?thesis by (simp add: m1)
  qed
  show ?thesis
  proof (cases "\<bar>x\<bar> * 2 powi k = 1")
    case True
    then have il: "ilog2 x = - k" using False by (simp add: ilog2_def y_def k_def Let_def)
    have eq: "\<bar>x\<bar> = 1 / 2 ^ nat k" using True by (simp add: p field_simps)
    have "(1 :: real) / 2 ^ nat k < 2 / 2 ^ nat k"
      by (rule divide_strict_right_mono) simp_all
    then show ?thesis unfolding il m1 m3 using eq by simp
  next
    case ne: False
    then have il: "ilog2 x = - k - 1"
      using False by (simp add: ilog2_def y_def k_def Let_def)
    have "\<bar>x\<bar> * 2 ^ nat k < 1" using up ne by (simp add: p)
    then have a: "\<bar>x\<bar> < 1 / 2 ^ nat k" by (simp add: field_simps)
    have b': "1 / (2 ^ nat k * 2) \<le> \<bar>x\<bar>" using lo by (simp add: field_simps)
    have "- k - 1 + 1 = - k" by simp
    then show ?thesis unfolding il using a b' by (simp add: m2 m1)
  qed
qed

lemma power_int_two_mono: "a < b \<Longrightarrow> (2 :: real) powi a < 2 powi b"
  by (rule power_int_strict_increasing) simp_all

lemma power_int_two_mono_le: "a \<le> b \<Longrightarrow> (2 :: real) powi a \<le> 2 powi b"
  by (rule power_int_increasing) simp_all

lemma ilog2_unique:
  assumes "2 powi k \<le> \<bar>x\<bar>" "\<bar>x\<bar> < 2 powi (k + 1)"
  shows "ilog2 x = k"
proof -
  have pos: "0 < (2 :: real) powi k" by (rule zero_less_power_int) simp
  have "x \<noteq> 0"
  proof
    assume "x = 0"
    then have "2 powi k \<le> (0 :: real)" using assms(1) by simp
    then show False using pos by linarith
  qed
  then have b: "2 powi (ilog2 x) \<le> \<bar>x\<bar>" "\<bar>x\<bar> < 2 powi (ilog2 x + 1)"
    using ilog2_bounds by simp_all
  have "\<not> k + 1 \<le> ilog2 x"
  proof
    assume "k + 1 \<le> ilog2 x"
    then have "(2 :: real) powi (k + 1) \<le> 2 powi (ilog2 x)" by (rule power_int_two_mono_le)
    then show False using assms(2) b(1) by linarith
  qed
  moreover have "\<not> ilog2 x + 1 \<le> k"
  proof
    assume "ilog2 x + 1 \<le> k"
    then have "(2 :: real) powi (ilog2 x + 1) \<le> 2 powi k" by (rule power_int_two_mono_le)
    then show False using assms(1) b(2) by linarith
  qed
  ultimately show ?thesis by linarith
qed

lemma ilog2_mono:
  assumes "x \<noteq> 0" "\<bar>x\<bar> \<le> \<bar>y\<bar>"
  shows "ilog2 x \<le> ilog2 y"
proof -
  have y: "y \<noteq> 0" using assms by auto
  have "2 powi (ilog2 x) \<le> \<bar>x\<bar>" using ilog2_bounds [OF assms(1)] by simp
  moreover have "\<bar>y\<bar> < 2 powi (ilog2 y + 1)" using ilog2_bounds [OF y] by simp
  ultimately have lt: "(2 :: real) powi (ilog2 x) < 2 powi (ilog2 y + 1)"
    using assms(2) by linarith
  have "\<not> ilog2 y + 1 \<le> ilog2 x"
  proof
    assume "ilog2 y + 1 \<le> ilog2 x"
    then have "(2 :: real) powi (ilog2 y + 1) \<le> 2 powi (ilog2 x)"
      by (rule power_int_two_mono_le)
    then show False using lt by linarith
  qed
  then show ?thesis by linarith
qed

lemma ilog2_minus [simp]: "ilog2 (- x) = ilog2 x"
  by (simp add: ilog2_def)

subsection \<open>Rounding is odd and monotone\<close>

lemma binary64_alt:
  "binary64 x =
     (if x = 0 then 0
      else of_int (round_half_even (x / 2 powi exponent64 x)) * 2 powi exponent64 x)"
  by (simp add: binary64_def exponent64_def Let_def)

lemma exponent64_minus [simp]: "exponent64 (- x) = exponent64 x"
  by (simp add: exponent64_def)

lemma binary64_minus: "binary64 (- x) = - binary64 x"
  by (simp add: binary64_alt round_half_even_minus)

lemma two_powi_pos [simp]: "0 < (2 :: real) powi e"
  by (rule zero_less_power_int) simp

lemma binary64_nonneg:
  assumes "0 \<le> x"
  shows "0 \<le> binary64 x"
proof (cases "x = 0")
  case True
  then show ?thesis by (simp add: binary64_alt)
next
  case False
  have "0 \<le> x / 2 powi exponent64 x" using assms by simp
  then have "of_int 0 \<le> x / 2 powi exponent64 x" by simp
  then have "0 \<le> round_half_even (x / 2 powi exponent64 x)"
    by (rule round_half_even_ge)
  then show ?thesis using False by (simp add: binary64_alt)
qed

lemma binary64_mono_pos:
  assumes x: "0 < x" and xy: "x \<le> y"
  shows "binary64 x \<le> binary64 y"
proof -
  have y: "0 < y" using x xy by linarith
  have il: "ilog2 x \<le> ilog2 y" using x xy y by (intro ilog2_mono) simp_all
  then have ee: "exponent64 x \<le> exponent64 y" by (simp add: exponent64_def)
  show ?thesis
  proof (cases "exponent64 x = exponent64 y")
    case True
    have "x / 2 powi exponent64 y \<le> y / 2 powi exponent64 y"
      using xy by (simp add: divide_right_mono)
    then have "round_half_even (x / 2 powi exponent64 y)
                 \<le> round_half_even (y / 2 powi exponent64 y)"
      by (rule round_half_even_mono)
    then have "(of_int (round_half_even (x / 2 powi exponent64 y)) :: real)
                 \<le> of_int (round_half_even (y / 2 powi exponent64 y))"
      by simp
    then show ?thesis using x y True
      by (simp add: binary64_alt mult_right_mono)
  next
    case False
    then have lt: "exponent64 x + 1 \<le> exponent64 y" using ee by simp
    then have ey: "exponent64 y = ilog2 y - 52" by (simp add: exponent64_def)
    have ex: "ilog2 x + 1 \<le> exponent64 x + 53" by (simp add: exponent64_def)
    have "2 powi (exponent64 y + 52) \<le> y"
      using ilog2_bounds [of y] y by (simp add: ey)
    moreover have "(2 :: real) powi (exponent64 y + 52) = 2 powi exponent64 y * 2 powi 52"
      by (rule power_int_add) simp
    ultimately have "2 powi exponent64 y * 2 ^ 52 \<le> y" by simp
    then have "of_int (2 ^ 52) \<le> y / 2 powi exponent64 y"
      by (simp add: pos_le_divide_eq mult.commute)
    then have "2 ^ 52 \<le> round_half_even (y / 2 powi exponent64 y)"
      by (rule round_half_even_ge)
    then have "(of_int (2 ^ 52) :: real) \<le> of_int (round_half_even (y / 2 powi exponent64 y))"
      by (simp only: of_int_le_iff)
    then have "(2 :: real) ^ 52 * 2 powi exponent64 y
                 \<le> of_int (round_half_even (y / 2 powi exponent64 y)) * 2 powi exponent64 y"
      by (simp add: mult_right_mono)
    then have lower: "2 ^ 52 * 2 powi exponent64 y \<le> binary64 y"
      using y by (simp add: binary64_alt)
    have "x < 2 powi (ilog2 x + 1)" using ilog2_bounds [of x] x by simp
    moreover have "(2 :: real) powi (ilog2 x + 1) \<le> 2 powi (exponent64 x + 53)"
      using ex by (rule power_int_two_mono_le)
    moreover have "(2 :: real) powi (exponent64 x + 53) = 2 powi exponent64 x * 2 powi 53"
      by (rule power_int_add) simp
    ultimately have "x \<le> 2 powi exponent64 x * 2 ^ 53" by simp
    then have "x / 2 powi exponent64 x \<le> of_int (2 ^ 53)"
      by (simp add: pos_divide_le_eq mult.commute)
    then have "round_half_even (x / 2 powi exponent64 x) \<le> 2 ^ 53"
      by (rule round_half_even_le)
    then have "(of_int (round_half_even (x / 2 powi exponent64 x)) :: real) \<le> of_int (2 ^ 53)"
      by (simp only: of_int_le_iff)
    then have "of_int (round_half_even (x / 2 powi exponent64 x)) * 2 powi exponent64 x
                 \<le> (2 :: real) ^ 53 * 2 powi exponent64 x"
      by (simp add: mult_right_mono)
    then have upper: "binary64 x \<le> 2 ^ 53 * 2 powi exponent64 x"
      using x by (simp add: binary64_alt)
    have "(2 :: real) powi (exponent64 x + 1) \<le> 2 powi exponent64 y"
      using lt by (rule power_int_two_mono_le)
    moreover have "(2 :: real) powi (exponent64 x + 1) = 2 powi exponent64 x * 2 powi 1"
      by (rule power_int_add) simp
    ultimately have "2 * 2 powi exponent64 x \<le> (2 :: real) powi exponent64 y"
      by (simp add: mult.commute)
    then have "2 ^ 52 * (2 * 2 powi exponent64 x) \<le> (2 :: real) ^ 52 * 2 powi exponent64 y"
      by (rule mult_left_mono) simp
    then have "2 ^ 53 * 2 powi exponent64 x \<le> (2 :: real) ^ 52 * 2 powi exponent64 y"
      by simp
    then show ?thesis using lower upper by linarith
  qed
qed

lemma binary64_mono:
  assumes "x \<le> y"
  shows "binary64 x \<le> binary64 y"
proof -
  consider "0 < x" | "x \<le> 0" "0 \<le> y" | "y < 0" by linarith
  then show ?thesis
  proof cases
    case 1
    then show ?thesis using assms by (rule binary64_mono_pos)
  next
    case 2
    have "0 \<le> binary64 (- x)" using 2(1) by (intro binary64_nonneg) simp
    then have "binary64 x \<le> 0" by (simp add: binary64_minus)
    moreover have "0 \<le> binary64 y" using 2(2) by (rule binary64_nonneg)
    ultimately show ?thesis by linarith
  next
    case 3
    have "binary64 (- y) \<le> binary64 (- x)"
      using 3 assms by (intro binary64_mono_pos) simp_all
    then show ?thesis by (simp add: binary64_minus)
  qed
qed

subsection \<open>Doubles are fixed points, and rounding is idempotent\<close>

lemma ilog2_scaled:
  assumes m: "m \<noteq> 0"
  shows "ilog2 (of_int m * 2 powi e) = bitlen \<bar>m\<bar> - 1 + e"
proof (rule ilog2_unique)
  define k where "k = bitlen \<bar>m\<bar> - 1"
  have pos: "0 < \<bar>m\<bar>" using m by simp
  have b: "2 ^ nat k \<le> \<bar>m\<bar>" "\<bar>m\<bar> < 2 ^ nat (k + 1)"
    using bitlen_bounds [OF pos] by (simp_all add: k_def)
  have k0: "0 \<le> k"
    using pos bitlen_eq_zero_iff [of "\<bar>m\<bar>"] bitlen_nonneg [of "\<bar>m\<bar>"] unfolding k_def
    by linarith
  have abs: "\<bar>of_int m * 2 powi e\<bar> = of_int \<bar>m\<bar> * (2 :: real) powi e"
    by (simp add: abs_mult)
  have p1: "(2 :: real) powi (k + e) = 2 ^ nat k * 2 powi e"
    using k0 power_int_add [of "2 :: real" k e] by (simp add: power_int_def)
  have p2: "(2 :: real) powi (k + e + 1) = 2 ^ nat (k + 1) * 2 powi e"
  proof -
    have "k + e + 1 = (k + 1) + e" by simp
    then have "(2 :: real) powi (k + e + 1) = 2 powi ((k + 1) + e)" by (rule arg_cong)
    also have "\<dots> = 2 powi (k + 1) * 2 powi e" by (rule power_int_add) simp
    finally show ?thesis using k0 by (simp add: power_int_def)
  qed
  have "(of_int (2 ^ nat k) :: real) \<le> of_int \<bar>m\<bar>" using b(1) by (simp only: of_int_le_iff)
  then have "(2 :: real) ^ nat k * 2 powi e \<le> of_int \<bar>m\<bar> * 2 powi e"
    by (simp add: mult_right_mono)
  then show "2 powi (bitlen \<bar>m\<bar> - 1 + e) \<le> \<bar>of_int m * (2 :: real) powi e\<bar>"
    unfolding abs k_def [symmetric] p1 .
  have "(of_int \<bar>m\<bar> :: real) < of_int (2 ^ nat (k + 1))" using b(2) by (simp only: of_int_less_iff)
  then have "of_int \<bar>m\<bar> * 2 powi e < (2 :: real) ^ nat (k + 1) * 2 powi e"
    by (simp add: mult_strict_right_mono)
  then show "\<bar>of_int m * (2 :: real) powi e\<bar> < 2 powi (bitlen \<bar>m\<bar> - 1 + e + 1)"
    unfolding abs k_def [symmetric] p2 .
qed

lemma binary64_fixes_small:
  assumes m: "\<bar>m\<bar> < 2 ^ 53" and e: "- 1074 \<le> e"
  shows "binary64 (of_int m * 2 powi e) = of_int m * 2 powi e"
proof (cases "m = 0")
  case True
  then show ?thesis by (simp add: binary64_alt)
next
  case False
  define x :: real where "x = of_int m * 2 powi e"
  have x0: "x \<noteq> 0" using False by (simp add: x_def)
  have "bitlen \<bar>m\<bar> \<le> 53" using m by (simp add: bitlen_le_iff_power)
  then have "ilog2 x - 52 \<le> e" using ilog2_scaled [OF False, of e] by (simp add: x_def)
  then have le: "exponent64 x \<le> e" using e by (simp add: exponent64_def)
  define ex where "ex = exponent64 x"
  define j where "j = nat (e - ex)"
  have e_split: "int j + ex = e" using le by (simp add: j_def ex_def)
  have "(2 :: real) powi (int j + ex) = 2 powi (int j) * 2 powi ex"
    by (rule power_int_add) simp
  then have pe: "(2 :: real) powi e = 2 ^ j * 2 powi ex"
    by (simp only: e_split power_int_of_nat)
  have "x / 2 powi ex = of_int m * 2 ^ j" by (simp add: x_def pe)
  also have "\<dots> = of_int (m * 2 ^ j)" by simp
  finally have "round_half_even (x / 2 powi ex) = m * 2 ^ j"
    by (simp only: round_half_even_of_int)
  then have "binary64 x = of_int (m * 2 ^ j) * 2 powi ex"
    using x0 by (simp add: binary64_alt ex_def)
  also have "\<dots> = of_int m * (2 ^ j * 2 powi ex)" by simp
  also have "\<dots> = x" by (simp only: pe [symmetric] x_def)
  finally show ?thesis by (simp only: x_def)
qed

lemma binary64_fixes_representable:
  assumes "representable x"
  shows "binary64 x = x"
proof -
  obtain m e where x: "x = of_int m * 2 powi e" and m: "\<bar>m\<bar> \<le> 2 ^ 53" and e: "- 1074 \<le> e"
    using assms by (auto simp add: representable_def)
  show ?thesis
  proof (cases "\<bar>m\<bar> < 2 ^ 53")
    case True
    then show ?thesis unfolding x using e by (rule binary64_fixes_small)
  next
    case False
    then have "m = 2 ^ 53 \<or> m = - (2 ^ 53)" using m by linarith
    moreover have p: "(2 :: real) powi (e + 1) = 2 powi e * 2" 
      using power_int_add [of "2 :: real" e 1] by simp
    moreover have "- 1074 \<le> e + 1" using e by simp
    ultimately show ?thesis
    proof (elim disjE)
      assume "m = 2 ^ 53"
      then have "x = of_int (2 ^ 52) * 2 powi (e + 1)" using x p by simp
      then show ?thesis
        using binary64_fixes_small [of "2 ^ 52" "e + 1"] \<open>- 1074 \<le> e + 1\<close> by simp
    next
      assume "m = - (2 ^ 53)"
      then have "x = of_int (- (2 ^ 52)) * 2 powi (e + 1)" using x p by simp
      then show ?thesis
        using binary64_fixes_small [of "- (2 ^ 52)" "e + 1"] \<open>- 1074 \<le> e + 1\<close> by simp
    qed
  qed
qed

lemma binary64_representable: "representable (binary64 x)"
proof (cases "x = 0")
  case True
  have "(0 :: real) = of_int 0 * 2 powi 0" by simp
  then show ?thesis using True unfolding representable_def binary64_alt
    by (intro exI [of _ 0]) simp
next
  case False
  define e where "e = exponent64 x"
  define m where "m = round_half_even (x / 2 powi e)"
  have e: "- 1074 \<le> e" by (simp add: e_def exponent64_def)
  have il: "ilog2 x + 1 \<le> e + 53" by (simp add: e_def exponent64_def)
  have "\<bar>x\<bar> < 2 powi (ilog2 x + 1)" using ilog2_bounds [OF False] by simp
  moreover have "(2 :: real) powi (ilog2 x + 1) \<le> 2 powi (e + 53)"
    using il by (rule power_int_two_mono_le)
  moreover have "(2 :: real) powi (e + 53) = 2 powi e * 2 powi 53"
    by (rule power_int_add) simp
  ultimately have ax: "\<bar>x\<bar> \<le> 2 powi e * 2 ^ 53" by simp
  have "x \<le> 2 powi e * 2 ^ 53" using ax by linarith
  then have "x / 2 powi e \<le> of_int (2 ^ 53)" by (simp add: pos_divide_le_eq mult.commute)
  then have up: "m \<le> 2 ^ 53" unfolding m_def by (rule round_half_even_le)
  have "- (2 powi e * 2 ^ 53) \<le> x" using ax by linarith
  then have "of_int (- (2 ^ 53)) \<le> x / 2 powi e"
    by (simp add: pos_le_divide_eq mult.commute)
  then have lo: "- (2 ^ 53) \<le> m" unfolding m_def by (rule round_half_even_ge)
  have "binary64 x = of_int m * 2 powi e" using False by (simp add: binary64_alt m_def e_def)
  moreover have "\<bar>m\<bar> \<le> 2 ^ 53" using up lo by linarith
  ultimately show ?thesis using e unfolding representable_def by blast
qed

lemma binary64_idempotent: "binary64 (binary64 x) = binary64 x"
  by (rule binary64_fixes_representable) (rule binary64_representable)

lemma representable_double:
  assumes "representable x"
  shows "representable (2 * x)"
proof -
  obtain m e where x: "x = of_int m * 2 powi e" and m: "\<bar>m\<bar> \<le> 2 ^ 53" and e: "- 1074 \<le> e"
    using assms by (auto simp add: representable_def)
  have "(2 :: real) powi (e + 1) = 2 powi e * 2 powi 1" by (rule power_int_add) simp
  then have "2 * x = of_int m * 2 powi (e + 1)" using x by simp
  moreover have "- 1074 \<le> e + 1" using e by simp
  ultimately show ?thesis using m unfolding representable_def by blast
qed

subsection \<open>Computing a rounding\<close>

text \<open>
  A number strictly closer to \<open>m * 2 powi e\<close> than half a unit in the last place rounds to
  it, where \<open>e\<close> is the exponent that \<open>binary64\<close> rounds at. (A tie is decided by the
  parity of \<open>m\<close>; the two ties met below are evaluated instead.)
\<close>

lemma round_half_even_nearest:
  assumes "\<bar>y - of_int m\<bar> < 1 / 2"
  shows "round_half_even y = m"
proof -
  have a: "of_int m - 1 / 2 < y" "y < of_int m + 1 / 2"
    using assms by linarith+
  have "of_int m - 1 < (of_int (round_half_even y) :: real)"
    using a round_half_even_lower [of y] by linarith
  then have "of_int (m - 1) < (of_int (round_half_even y) :: real)" by simp
  moreover have "(of_int (round_half_even y) :: real) < of_int m + 1"
    using a round_half_even_upper [of y] by linarith
  then have "(of_int (round_half_even y) :: real) < of_int (m + 1)" by simp
  ultimately have "m - 1 < round_half_even y" "round_half_even y < m + 1"
    by (simp_all only: of_int_less_iff)
  then show ?thesis by simp
qed

lemma binary64_eqI:
  assumes lo: "2 powi k \<le> \<bar>x\<bar>" and hi: "\<bar>x\<bar> < 2 powi (k + 1)"
    and y: "y = of_int m * 2 powi max (k - 52) (- 1074)"
    and near: "\<bar>x - y\<bar> < 2 powi max (k - 52) (- 1074) / 2"
  shows "binary64 x = y"
proof -
  define e where "e = max (k - 52) (- 1074)"
  have x0: "x \<noteq> 0"
  proof
    assume "x = 0"
    then have "2 powi k \<le> (0 :: real)" using lo by simp
    moreover have "0 < (2 :: real) powi k" by simp
    ultimately show False by linarith
  qed
  have k: "ilog2 x = k" using lo hi by (rule ilog2_unique)
  have pos: "0 < (2::real) powi e" by simp
  have "x / 2 powi e - of_int m = (x - of_int m * 2 powi e) / 2 powi e"
    by (simp add: field_simps)
  then have "\<bar>x / 2 powi e - of_int m\<bar> = \<bar>x - of_int m * 2 powi e\<bar> / 2 powi e"
    by (simp add: abs_divide del: two_powi_pos)
  also have "\<dots> < (2 powi e / 2) / 2 powi e"
    using near pos unfolding y e_def [symmetric] by (simp only: divide_strict_right_mono)
  also have "\<dots> = 1 / 2" by simp
  finally have "round_half_even (x / 2 powi e) = m" by (rule round_half_even_nearest)
  then show ?thesis using x0 k y by (simp add: binary64_def Let_def e_def)
qed

subsection \<open>Underflow\<close>

text \<open>A positive number below \<open>2 ^ - 1075\<close>, half the least positive double, rounds to 0.\<close>

lemma floor_inverse_ge_power:
  fixes x :: real
  assumes "0 < x" "x * 2 ^ n < 1"
  shows "(2 :: int) ^ n \<le> \<lfloor>1 / x\<rfloor>"
proof -
  have "2 ^ n < 1 / x" using assms by (simp add: pos_less_divide_eq mult.commute)
  then have "of_int ((2 :: int) ^ n) \<le> 1 / x" by simp
  then show ?thesis by (simp only: le_floor_iff)
qed

lemma ilog2_small:
  fixes x :: real
  assumes pos: "0 < x" and small: "x * 2 ^ n < 1"
  shows "ilog2 x \<le> - int n"
proof -
  have "x * 1 \<le> x * 2 ^ n" using pos by (intro mult_left_mono) simp_all
  then have "x < 1" using small by linarith
  then have x1: "\<not> 1 \<le> \<bar>x\<bar>" using pos by simp
  have "nat (int n + 1) - 1 = n" by simp
  then have "int n + 1 \<le> bitlen \<lfloor>1 / x\<rfloor>"
    using floor_inverse_ge_power [OF pos small]
      bitlen_ge_iff_power [of "int n + 1" "\<lfloor>1 / x\<rfloor>"]
    by simp
  then show ?thesis using x1 pos by (simp add: ilog2_def Let_def)
qed

lemma round_half_even_small:
  assumes "0 \<le> y" "y < 1 / 2"
  shows "round_half_even y = 0"
proof -
  have "\<lfloor>y\<rfloor> = 0" using assms by (simp add: floor_eq_iff)
  then show ?thesis using assms by (simp add: round_half_even_def Let_def)
qed

lemma binary64_underflow:
  assumes pos: "0 < x" and small: "x * 2 ^ 1075 < 1"
  shows "binary64 x = 0"
proof -
  have "ilog2 x \<le> - int 1075" using pos small by (rule ilog2_small)
  then have e: "max (ilog2 x - 52) (- 1074) = - 1074" by simp
  have scaled: "x / 2 powi (- 1074) = x * 2 ^ 1074"
    by (simp add: power_int_minus field_simps)
  have lt: "x * 2 ^ 1074 < 1 / 2" using small by simp
  have ge: "0 \<le> x * 2 ^ 1074" using pos by simp
  have "round_half_even (x * 2 ^ 1074) = 0"
    using ge lt by (rule round_half_even_small)
  then show ?thesis using pos by (simp only: binary64_def Let_def e scaled) simp
qed

section \<open>Exact arithmetic: the operations as formulas\<close>

lemma py_pow_exact_pos: "0 < a \<Longrightarrow> py_pow exact a b = Inr (PyFloat (a powr b))"
  by (simp add: py_pow_def exact_def)

lemma powi_nat: "1 \<le> n \<Longrightarrow> (a::real) powi n = a ^ nat n"
  by (simp add: power_int_def)

lemma monthly_payment_exact:
  fixes principal annual_rate :: real
  assumes "0 < principal" "1 \<le> months"
  shows "monthly_payment exact principal annual_rate months =
     (if annual_rate / 12 = 0 then Inr (principal / of_int months)
      else if (1 + annual_rate / 12) ^ nat months = 1 then Inl ZeroDivisionError
      else Inr (principal * (annual_rate / 12 * (1 + annual_rate / 12) ^ nat months)
                 / ((1 + annual_rate / 12) ^ nat months - 1)))"
  using assms
  by (simp add: monthly_payment_def py_div_def py_pow_int_def py_float_def exact_def
      powi_nat Let_def)

lemma analyze_exact:
  fixes amount rate years :: real
  assumes "- 1 < rate"
  shows "\<exists>res pv fv gf. analyze exact amount rate years = Inr res \<and>
           tv_present_value res = PyFloat pv \<and> tv_future_value res = PyFloat fv \<and>
           tv_growth_factor res = PyFloat gf \<and>
           gf = (1 + rate) powr years \<and> pv * gf = amount \<and> fv = amount * gf"
proof -
  have pos: "0 < exact (1 + rate)" using assms by (simp add: exact_def)
  have g: "(1 + rate) powr years \<noteq> 0" using assms by simp
  show ?thesis using g pos
    by (simp add: analyze_def py_pow_exact_pos num_mult_def num_rdiv_def)
       (simp add: exact_def)
qed

lemma doubling_time_exact:
  assumes "1 \<le> n"
  shows "doubling_time exact rate n =
     (if rate \<le> 0 then Inr PInf
      else Inr (Fin (ln 2 / (of_int n * ln (1 + rate / of_int n)))))"
proof (cases "rate \<le> 0")
  case True
  then show ?thesis by (simp add: doubling_time_def)
next
  case False
  then have r: "0 < rate" by simp
  have n: "0 < (of_int n :: real)" using assms by simp
  have q: "0 < rate / of_int n" using r n by simp
  then have l: "0 < ln (1 + rate / of_int n)" by simp
  have "of_int n * ln (1 + rate / of_int n) \<noteq> 0" using n l by simp
  moreover have "\<not> 1 + rate / of_int n \<le> 0" using q by linarith
  ultimately show ?thesis using r n
    by (simp add: doubling_time_def py_div_def py_float_def math_log_def exact_def)
qed

lemma binary64_small_values:
  "binary64 2 = 2" "binary64 50 = 50" "binary64 200 = 200" "binary64 (1/2) = 1/2"
  by code_simp+

lemma binary64_units: "binary64 0 = 0" "binary64 1 = 1" "binary64 (- 1) = - 1"
  by code_simp+

lemma calculate_ValueError:
  "calculate rnd principal rate n years = Inl ValueError \<longleftrightarrow> principal \<le> 0 \<or> n < 1"
  for principal :: real
  by (auto simp add: calculate_def py_div_def py_pow_def py_pow_int_def Let_def
      split: sum.splits if_splits)

lemma monthly_payment_ValueError:
  "monthly_payment rnd principal annual_rate months = Inl ValueError
     \<longleftrightarrow> principal \<le> 0 \<or> months < 1"
  for principal :: real
  by (auto simp add: monthly_payment_def py_div_def py_pow_int_def Let_def
      split: sum.splits if_splits)

lemma schedule_raises:
  "schedule rnd principal annual_rate months = Inl e \<longleftrightarrow>
   monthly_payment rnd principal annual_rate months = Inl e"
  for principal :: real
  by (simp add: schedule_def Let_def split: sum.splits)

lemma calculate_exact_raises:
  fixes principal :: real
  assumes "0 < principal" "1 \<le> n"
  shows "calculate exact principal rate n years = Inl e \<longleftrightarrow>
         e = ZeroDivisionError \<and> 1 + rate / of_int n = 0 \<and> of_int n * years < 0"
  using assms
  by (auto simp add: calculate_def py_div_def py_pow_def py_pow_int_def py_float_def
      exact_def Let_def split: sum.splits if_splits)

lemma percentage_of_raises:
  "percentage_of rnd part total = Inl e \<longleftrightarrow> e = ValueError \<and> total = 0"
  for total :: real
  by (auto simp add: percentage_of_def)

lemma find_total_raises:
  "find_total rnd part percent = Inl e \<longleftrightarrow> e = ValueError \<and> percent = 0"
  by (auto simp add: find_total_def py_div_def)

lemma change_raises: "change rnd old new = Inl e \<longleftrightarrow> e = ValueError \<and> old = 0"
  by (auto simp add: change_def py_div_def)

lemma margin_raises: "margin rnd revenue cost = Inl e \<longleftrightarrow> e = ValueError \<and> revenue = 0"
  by (auto simp add: margin_def py_div_def)

lemma markup_raises:
  "markup rnd cost selling_price = Inl e \<longleftrightarrow> e = ValueError \<and> cost = 0"
  by (auto simp add: markup_def py_div_def)

section \<open>Time value of money: round trip and the record of \<^verbatim>\<open>analyze\<close>\<close>

text \<open>
  C8, as stated: for every \<open>pv\<close>, every \<open>rate > - 1\<close> and all \<open>years\<close>,
  \<^verbatim>\<open>present_value(future_value(pv, rate, years), rate, years)\<close> is approximately \<open>pv\<close>.
  On doubles it fails at \<^verbatim>\<open>pv = 1.0\<close>, \<^verbatim>\<open>rate = -0.5\<close>, \<^verbatim>\<open>years = 2000.0\<close>: the growth
  factor \<open>0.5 ^ 2000\<close> is below \<open>2 ^ - 1075\<close> and rounds to \<open>0.0\<close>, so
  \<^verbatim>\<open>future_value\<close> returns \<open>0.0\<close>, and \<^verbatim>\<open>present_value(0.0, -0.5, 2000.0)\<close> divides by the
  same \<open>0.0\<close> and raises \<^verbatim>\<open>ZeroDivisionError\<close>. The three arguments are doubles.
\<close>

theorem round_trip_raises_on_doubles:
  "(- 1 :: real) < - 1 / 2 \<and>
   future_value binary64 1 (- 1 / 2) 2000 = Inr (PyFloat 0) \<and>
   present_value binary64 0 (- 1 / 2) 2000 = Inl ZeroDivisionError"
proof -
  have "((1 / 2) ^ 2000 :: real) * 2 ^ 1075 = (1 / 2) ^ 925 * ((1 / 2) ^ 1075 * 2 ^ 1075)"
    by (simp only: power_add [symmetric] mult.assoc [symmetric]) simp
  also have "\<dots> = (1 / 2) ^ 925" by (simp only: power_mult_distrib [symmetric]) simp
  also have "\<dots> < 1" by (simp add: power_less_one_iff)
  finally have g: "binary64 ((1 / 2) ^ 2000) = 0" by (intro binary64_underflow) simp_all
  have "future_value binary64 1 (- 1 / 2) 2000 = Inr (PyFloat 0)"
    by (simp add: future_value_def py_pow_def num_mult_def binary64_small_values
        binary64_units g)
  moreover have "present_value binary64 0 (- 1 / 2) 2000 = Inl ZeroDivisionError"
    by (simp add: present_value_def py_pow_def num_rdiv_def binary64_small_values
        binary64_units g)
  ultimately show ?thesis by simp
qed

text \<open>
  C8, amended: in exact arithmetic, for every \<open>pv\<close>, every \<open>rate > - 1\<close> and all
  \<open>years\<close>, \<^verbatim>\<open>future_value(pv, rate, years)\<close> returns a float \<open>fv\<close>, and
  \<^verbatim>\<open>present_value(fv, rate, years)\<close> returns \<open>pv\<close>.
\<close>

theorem present_value_future_value_roundtrip:
  fixes pv rate years :: real
  assumes "- 1 < rate"
  shows "\<exists>fv. future_value exact pv rate years = Inr (PyFloat fv) \<and>
              present_value exact fv rate years = Inr (PyFloat pv)"
proof -
  have pos: "0 < exact (1 + rate)" using assms by (simp add: exact_def)
  have g: "(1 + rate) powr years \<noteq> 0" using assms by simp
  show ?thesis using g pos
    by (simp add: future_value_def present_value_def py_pow_exact_pos num_mult_def
        num_rdiv_def)
       (simp add: exact_def)
qed

theorem present_value_future_value_roundtrip_witness:
  "(- 1 :: real) < 1 / 10 \<and>
   (\<exists>fv. future_value exact 1000 (1 / 10) 2 = Inr (PyFloat fv) \<and>
         present_value exact fv (1 / 10) 2 = Inr (PyFloat 1000))"
  using present_value_future_value_roundtrip [of "1 / 10" 1000 2] by simp

text \<open>
  C2, as stated: in the record returned by \<^verbatim>\<open>analyze(amount, rate, years)\<close>,
  \<open>present_value * growth_factor\<close> equals \<open>future_value\<close>. It fails at
  \<^verbatim>\<open>analyze(100.0, 1.0, 1.0)\<close>, where the growth factor is 2, the present value 50 and
  the future value 200: the product is 100, not 200. The three numbers are doubles, so
  the run on doubles returns the same record and rounding plays no part.
\<close>

theorem analyze_product_counterexample:
  "analyze exact 100 1 1 =
     Inr \<lparr>tv_present_value = PyFloat 50, tv_future_value = PyFloat 200, tv_rate = 1,
          tv_years = 1, tv_growth_factor = PyFloat 2, tv_discount_factor = PyFloat (1 / 2)\<rparr>
   \<and> analyze binary64 100 1 1 = analyze exact 100 1 1
   \<and> (50 :: real) * 2 \<noteq> 200"
  by (simp add: analyze_def py_pow_def num_mult_def num_rdiv_def binary64_small_values)
     (simp add: exact_def)

text \<open>
  C2, amended: for every \<open>amount\<close>, every \<open>rate > - 1\<close> and all \<open>years\<close>, \<^verbatim>\<open>analyze\<close>
  returns a record of floats with \<open>growth_factor = (1 + rate) ^ years\<close>,
  \<open>present_value * growth_factor = amount\<close> and \<open>future_value = amount * growth_factor\<close>
  (in exact arithmetic): both values are derived from \<open>amount\<close>, not from each other, and
  \<open>present_value * growth_factor = future_value\<close> only when \<open>amount = 0\<close> or
  \<open>growth_factor = 1\<close>.
\<close>

theorem analyze_growth_relations:
  fixes amount rate years :: real
  assumes "- 1 < rate"
  shows "\<exists>res pv fv gf. analyze exact amount rate years = Inr res \<and>
           tv_present_value res = PyFloat pv \<and> tv_future_value res = PyFloat fv \<and>
           tv_growth_factor res = PyFloat gf \<and>
           gf = (1 + rate) powr years \<and> pv * gf = amount \<and> fv = amount * gf \<and>
           (pv * gf = fv \<longleftrightarrow> amount = 0 \<or> gf = 1)"
proof -
  obtain res pv fv gf where run: "analyze exact amount rate years = Inr res"
    "tv_present_value res = PyFloat pv" "tv_future_value res = PyFloat fv"
    "tv_growth_factor res = PyFloat gf" "gf = (1 + rate) powr years"
    and rel: "pv * gf = amount" "fv = amount * gf"
    using analyze_exact [OF assms, of amount years] by blast
  have "pv * gf = fv \<longleftrightarrow> amount = 0 \<or> gf = 1" using rel by auto
  then show ?thesis using run rel by blast
qed

theorem analyze_growth_relations_witness:
  "(- 1 :: real) < 1 \<and>
   (\<exists>res pv fv gf. analyze exact 100 1 1 = Inr res \<and>
           tv_present_value res = PyFloat pv \<and> tv_future_value res = PyFloat fv \<and>
           tv_growth_factor res = PyFloat gf \<and>
           gf = (1 + 1) powr 1 \<and> pv * gf = 100 \<and> fv = 100 * gf)"
  using analyze_growth_relations [of 1 100 1] by auto

section \<open>The monthly payment\<close>

text \<open>
  C5, as stated: for \<open>principal > 0\<close> and \<open>months \<ge> 1\<close>, \<^verbatim>\<open>monthly_payment\<close> returns
  \<open>principal / months\<close> when \<open>rm = annual_rate / 12\<close> is 0 and the annuity formula
  otherwise. It fails at \<^verbatim>\<open>monthly_payment(1.0, -24.0, 2)\<close>: \<open>rm = - 2\<close> is not 0, but
  \<open>(1 + rm) ^ 2 = 1\<close>, the denominator is 0 and the call raises \<^verbatim>\<open>ZeroDivisionError\<close>,
  in exact arithmetic and on doubles alike.
\<close>

theorem monthly_payment_zero_denominator:
  "monthly_payment exact 1 (- 24) 2 = Inl ZeroDivisionError \<and>
   monthly_payment binary64 1 (- 24) 2 = Inl ZeroDivisionError"
proof
  show "monthly_payment exact 1 (- 24) 2 = Inl ZeroDivisionError"
    by (simp add: monthly_payment_def py_pow_int_def py_div_def exact_def)
  show "monthly_payment binary64 1 (- 24) 2 = Inl ZeroDivisionError"
    by code_simp
qed

text \<open>
  C5, amended: for \<open>principal > 0\<close> and \<open>months \<ge> 1\<close>, \<^verbatim>\<open>monthly_payment\<close> returns
  \<open>principal / months\<close> when \<open>rm = 0\<close>; otherwise, when \<open>(1 + rm) ^ months \<noteq> 1\<close>, it
  returns \<open>principal * rm * (1 + rm) ^ months / ((1 + rm) ^ months - 1)\<close> (in exact
  arithmetic). The theorem also records the remaining case, which raises.
\<close>

theorem monthly_payment_formula:
  fixes principal annual_rate :: real
  assumes "0 < principal" "1 \<le> months"
  shows "monthly_payment exact principal annual_rate months =
     (if annual_rate / 12 = 0 then Inr (principal / of_int months)
      else if (1 + annual_rate / 12) ^ nat months = 1 then Inl ZeroDivisionError
      else Inr (principal * (annual_rate / 12 * (1 + annual_rate / 12) ^ nat months)
                 / ((1 + annual_rate / 12) ^ nat months - 1)))"
  using assms by (rule monthly_payment_exact)

theorem monthly_payment_formula_witness:
  "(0 :: real) < 1000 \<and> (1 :: int) \<le> 1 \<and> monthly_payment exact 1000 12 1 = Inr 2000"
  using monthly_payment_formula [of 1000 1 12] by simp

section \<open>Doubling time\<close>

text \<open>
  C9, as stated: for every \<open>rate > 0\<close> and \<open>n \<ge> 1\<close>, \<^verbatim>\<open>doubling_time(rate, n)\<close> returns
  \<open>ln 2 / (n * ln (1 + rate / n))\<close>. On doubles it fails at \<^verbatim>\<open>doubling_time(1e-17, 1)\<close>:
  \<open>1 + rate / n\<close> rounds to \<open>1.0\<close>, its logarithm is \<open>0.0\<close>, and the division by
  \<open>n * 0.0\<close> raises \<^verbatim>\<open>ZeroDivisionError\<close>. \<open>binary64 (1 / 10 ^ 17)\<close> is the double written
  \<^verbatim>\<open>1e-17\<close>.
\<close>

theorem doubling_time_raises_on_doubles:
  "0 < binary64 (1 / 10 ^ 17) \<and> (1 :: int) \<le> 1 \<and>
   doubling_time binary64 (binary64 (1 / 10 ^ 17)) 1 = Inl ZeroDivisionError"
proof -
  have rate: "binary64 (1 / 100000000000000000) = 6490371073168535 / 2 ^ 109"
    by (rule binary64_eqI [where k = "- 57" and m = 6490371073168535])
       (simp_all add: power_int_minus power_divide)
  have q: "binary64 (6490371073168535 / 649037107316853453566312041152512)
             = 6490371073168535 / 2 ^ 109"
    by (rule binary64_eqI [where k = "- 57" and m = 6490371073168535])
       (simp_all add: power_int_minus power_divide)
  have base: "binary64 (649037107316853460056683114321047 / 649037107316853453566312041152512)
                = 1"
    by (rule binary64_eqI [where k = 0 and m = 4503599627370496])
       (simp_all add: power_int_minus power_divide)
  show ?thesis
    by (simp add: doubling_time_def py_div_def py_float_def math_log_def
        rate q base binary64_units)
qed

text \<open>
  C9, amended: for every \<open>rate \<le> 0\<close> and \<open>n \<ge> 1\<close>, \<^verbatim>\<open>doubling_time(rate, n)\<close> returns
  \<^verbatim>\<open>float("inf")\<close>, whatever the rounding (and whatever \<open>n\<close>); for every \<open>rate > 0\<close>
  and \<open>n \<ge> 1\<close> it returns \<open>ln 2 / (n * ln (1 + rate / n))\<close> in exact arithmetic.
\<close>

theorem doubling_time_closed_form:
  assumes "1 \<le> n"
  shows "(rate \<le> 0 \<longrightarrow> doubling_time rnd rate n = Inr PInf) \<and>
         (0 < rate \<longrightarrow>
            doubling_time exact rate n
              = Inr (Fin (ln 2 / (of_int n * ln (1 + rate / of_int n)))))"
proof
  show "rate \<le> 0 \<longrightarrow> doubling_time rnd rate n = Inr PInf"
    by (simp add: doubling_time_def)
  show "0 < rate \<longrightarrow>
          doubling_time exact rate n
            = Inr (Fin (ln 2 / (of_int n * ln (1 + rate / of_int n))))"
    using doubling_time_exact [OF assms, of rate] by simp
qed

theorem doubling_time_closed_form_witness:
  "(1 :: int) \<le> 1 \<and> doubling_time exact 1 1 = Inr (Fin 1) \<and>
   doubling_time binary64 0 1 = Inr PInf"
  using doubling_time_closed_form [of 1 1 exact] doubling_time_closed_form [of 1 0 binary64]
  by simp

section \<open>The affordable principal\<close>

text \<open>
  C7, as stated: for \<open>monthly_budget > 0\<close>, \<open>annual_rate \<ge> 0\<close> and \<open>months \<ge> 1\<close>,
  \<^verbatim>\<open>monthly_payment(affordable_principal(monthly_budget, annual_rate, months), annual_rate, months)\<close>
  is approximately \<open>monthly_budget\<close>. On doubles it fails at
  \<^verbatim>\<open>affordable_principal(100.0, 1e-16, 12)\<close>: \<open>rm\<close> is not 0, but \<open>1 + rm\<close> rounds to
  \<open>1.0\<close>, so \<open>(1 + rm) ** 12 - 1\<close> is \<open>0.0\<close> and the principal returned is \<open>0.0\<close>, on
  which \<^verbatim>\<open>monthly_payment\<close> raises \<^verbatim>\<open>ValueError\<close>. \<open>binary64 (1 / 10 ^ 16)\<close> is the double
  written \<^verbatim>\<open>1e-16\<close>.
\<close>

theorem affordable_principal_vanishes_on_doubles:
  "(0 :: real) < 100 \<and> 0 \<le> binary64 (1 / 10 ^ 16) \<and> (1 :: int) \<le> 12 \<and>
   affordable_principal binary64 100 (binary64 (1 / 10 ^ 16)) 12 = Inr 0 \<and>
   monthly_payment binary64 0 (binary64 (1 / 10 ^ 16)) 12 = Inl ValueError"
proof -
  have rate: "binary64 (1 / 10000000000000000) = 2028240960365167 / 2 ^ 104"
    by (rule binary64_eqI [where k = "- 54" and m = 8112963841460668])
       (simp_all add: power_int_minus power_divide)
  have rm: "binary64 (2028240960365167 / 243388915243820045087367015432192)
              = 5408642560973779 / 2 ^ 109"
    by (rule binary64_eqI [where k = "- 57" and m = 5408642560973779])
       (simp_all add: power_int_minus power_divide)
  have base: "binary64 (649037107316853458974954602126291 / 649037107316853453566312041152512)
                = 1"
    by (rule binary64_eqI [where k = 0 and m = 4503599627370496])
       (simp_all add: power_int_minus power_divide)
  have rm_g: "binary64 (5408642560973779 / 649037107316853453566312041152512)
                = 5408642560973779 / 2 ^ 109"
    by (rule binary64_eqI [where k = "- 57" and m = 5408642560973779])
       (simp_all add: power_int_minus power_divide)
  have "affordable_principal binary64 100 (binary64 (1 / 10 ^ 16)) 12 = Inr 0"
    by (simp add: affordable_principal_def py_pow_int_def py_div_def Let_def
        rate rm base rm_g binary64_units)
  moreover have "monthly_payment binary64 0 (binary64 (1 / 10 ^ 16)) 12 = Inl ValueError"
    by (simp add: monthly_payment_def)
  ultimately show ?thesis by (simp add: rate)
qed

text \<open>
  C7, amended: in exact arithmetic \<^verbatim>\<open>affordable_principal\<close> inverts the payment formula:
  for \<open>monthly_budget > 0\<close>, \<open>annual_rate \<ge> 0\<close> and \<open>months \<ge> 1\<close> it returns a
  principal \<open>p\<close> whose \<^verbatim>\<open>monthly_payment\<close> is the budget again, and
  \<open>p = monthly_budget * months\<close> when \<open>annual_rate / 12 = 0\<close>.
\<close>

theorem affordable_principal_inverse:
  fixes monthly_budget annual_rate :: real
  assumes b: "0 < monthly_budget" and r: "0 \<le> annual_rate" and m: "1 \<le> months"
  shows "\<exists>p. affordable_principal exact monthly_budget annual_rate months = Inr p \<and>
             monthly_payment exact p annual_rate months = Inr monthly_budget \<and>
             (annual_rate / 12 = 0 \<longrightarrow> p = monthly_budget * of_int months)"
proof (cases "annual_rate = 0")
  case True
  have pos: "0 < monthly_budget * of_int months" using b m by simp
  have "affordable_principal exact monthly_budget annual_rate months
          = Inr (monthly_budget * of_int months)"
    using True by (simp add: affordable_principal_def exact_def py_float_def)
  moreover have "monthly_payment exact (monthly_budget * of_int months) annual_rate months
          = Inr monthly_budget"
    using True m monthly_payment_exact [OF pos m, of annual_rate] by simp
  ultimately show ?thesis by simp
next
  case False
  define rm where "rm = annual_rate / 12"
  define g where "g = (1 + rm) ^ nat months"
  have rm: "0 < rm" using False r by (simp add: rm_def)
  have n: "0 < nat months" using m by simp
  have g1: "1 < g" unfolding g_def using rm n by (simp add: one_less_power)
  have ap: "affordable_principal exact monthly_budget annual_rate months
          = Inr (monthly_budget * ((g - 1) / (rm * g)))"
    using False rm g1 m
    by (simp add: affordable_principal_def exact_def py_pow_int_def py_div_def powi_nat
        rm_def g_def Let_def)
  have pos: "0 < monthly_budget * ((g - 1) / (rm * g))" using b rm g1 by simp
  have "monthly_payment exact (monthly_budget * ((g - 1) / (rm * g))) annual_rate months
          = Inr (monthly_budget * ((g - 1) / (rm * g)) * (rm * g) / (g - 1))"
    using monthly_payment_exact [OF pos m, of annual_rate] False g1
    by (simp add: rm_def g_def)
  moreover have "monthly_budget * ((g - 1) / (rm * g)) * (rm * g) / (g - 1) = monthly_budget"
    using rm g1 by simp
  ultimately show ?thesis using ap False by simp
qed

theorem affordable_principal_inverse_witness:
  "(0 :: real) < 100 \<and> (0 :: real) \<le> 12 / 100 \<and> (1 :: int) \<le> 12 \<and>
   (\<exists>p. affordable_principal exact 100 (12 / 100) 12 = Inr p \<and>
        monthly_payment exact p (12 / 100) 12 = Inr 100) \<and>
   (0 :: real) / 12 = 0 \<and>
   (\<exists>p. affordable_principal exact 100 0 12 = Inr p \<and>
        monthly_payment exact p 0 12 = Inr 100 \<and> p = 1200)"
  using affordable_principal_inverse [of 100 "12 / 100" 12]
    affordable_principal_inverse [of 100 0 12]
  by simp

section \<open>When the operations raise\<close>

text \<open>
  C6, as stated: each operation raises exactly when its precondition is violated, and
  none raises on an input that satisfies it. The second half fails for
  \<^verbatim>\<open>CompoundInterest.calculate(1.0, -1.0, 1, -1.0)\<close>: the principal is positive and
  \<open>n = 1\<close>, but the base \<open>1 + rate / n\<close> is 0 and the exponent \<open>n * years\<close> is negative, so
  \<^verbatim>\<open>**\<close> raises \<^verbatim>\<open>ZeroDivisionError\<close>, in exact arithmetic and on doubles alike.
\<close>

theorem calculate_raises_within_precondition:
  "(0 :: real) < 1 \<and> (1 :: int) \<le> 1 \<and>
   calculate exact 1 (- 1) 1 (- 1) = Inl ZeroDivisionError \<and>
   calculate binary64 1 (- 1) 1 (- 1) = Inl ZeroDivisionError"
  by (simp add: calculate_def py_div_def py_float_def py_pow_def binary64_units)
     (simp add: exact_def)

text \<open>
  C6, amended. With any rounding, \<^verbatim>\<open>calculate\<close> raises \<^verbatim>\<open>ValueError\<close> exactly when
  \<open>principal \<le> 0\<close> or \<open>n < 1\<close>, \<^verbatim>\<open>monthly_payment\<close> and \<^verbatim>\<open>schedule\<close> exactly when
  \<open>principal \<le> 0\<close> or \<open>months < 1\<close>, and the five percentage operations raise exactly
  when their divisor is 0, always \<^verbatim>\<open>ValueError\<close>. On an input that satisfies its
  precondition, in exact arithmetic, \<^verbatim>\<open>calculate\<close> raises only \<^verbatim>\<open>ZeroDivisionError\<close>, and
  only when \<open>1 + rate / n = 0\<close> and \<open>n * years < 0\<close>; \<^verbatim>\<open>monthly_payment\<close> and
  \<^verbatim>\<open>schedule\<close> return when \<open>annual_rate / 12 = 0\<close> or \<open>(1 + annual_rate / 12) ^ months \<noteq> 1\<close>.
\<close>

theorem raise_conditions:
  fixes principal total :: real
  shows
    "(calculate rnd principal rate n years = Inl ValueError \<longleftrightarrow> principal \<le> 0 \<or> n < 1) \<and>
     (monthly_payment rnd principal annual_rate months = Inl ValueError
        \<longleftrightarrow> principal \<le> 0 \<or> months < 1) \<and>
     (schedule rnd principal annual_rate months = Inl ValueError
        \<longleftrightarrow> principal \<le> 0 \<or> months < 1) \<and>
     (percentage_of rnd part total = Inl e \<longleftrightarrow> e = ValueError \<and> total = 0) \<and>
     (find_total rnd part percent = Inl e \<longleftrightarrow> e = ValueError \<and> percent = 0) \<and>
     (change rnd old new = Inl e \<longleftrightarrow> e = ValueError \<and> old = 0) \<and>
     (margin rnd revenue cost = Inl e \<longleftrightarrow> e = ValueError \<and> revenue = 0) \<and>
     (markup rnd cost selling_price = Inl e \<longleftrightarrow> e = ValueError \<and> cost = 0) \<and>
     (0 < principal \<and> 1 \<le> n \<longrightarrow>
        (calculate exact principal rate n years = Inl e \<longleftrightarrow>
           e = ZeroDivisionError \<and> 1 + rate / of_int n = 0 \<and> of_int n * years < 0)) \<and>
     (0 < principal \<and> 1 \<le> months \<and>
      (annual_rate / 12 = 0 \<or> (1 + annual_rate / 12) ^ nat months \<noteq> 1) \<longrightarrow>
        (\<exists>m. monthly_payment exact principal annual_rate months = Inr m) \<and>
        (\<exists>res. schedule exact principal annual_rate months = Inr res))"
proof -
  have sched: "schedule rnd principal annual_rate months = Inl ValueError
        \<longleftrightarrow> principal \<le> 0 \<or> months < 1"
    by (simp add: schedule_raises monthly_payment_ValueError)
  have returns: "(\<exists>m. monthly_payment exact principal annual_rate months = Inr m) \<and>
        (\<exists>res. schedule exact principal annual_rate months = Inr res)"
    if pre: "0 < principal" "1 \<le> months"
       "annual_rate / 12 = 0 \<or> (1 + annual_rate / 12) ^ nat months \<noteq> 1"
  proof -
    obtain m where m: "monthly_payment exact principal annual_rate months = Inr m"
      using pre monthly_payment_exact [of principal months annual_rate]
      by (auto split: if_splits)
    then have "\<exists>res. schedule exact principal annual_rate months = Inr res"
      by (simp add: schedule_def Let_def)
    with m show ?thesis by blast
  qed
  show ?thesis
    using sched returns calculate_exact_raises [of principal n rate years e]
    by (simp add: calculate_ValueError monthly_payment_ValueError percentage_of_raises
        find_total_raises change_raises margin_raises markup_raises)
qed

theorem raise_conditions_witness:
  "(0 :: real) < 1000 \<and> (1 :: int) \<le> 1 \<and> (1 + (12 :: real) / 12) ^ nat 1 = 2 \<and>
   (\<exists>m. monthly_payment exact 1000 12 1 = Inr m) \<and>
   (\<exists>res. schedule exact 1000 12 1 = Inr res) \<and>
   calculate exact 1000 (- 1) 1 (- 1) = Inl ZeroDivisionError \<and>
   calculate exact 0 (- 1) 1 (- 1) = Inl ValueError \<and>
   percentage_of exact 25 0 = Inl ValueError"
  using raise_conditions [where rnd = exact and principal = 1000 and annual_rate = 12
      and months = 1 and n = 1 and rate = "- 1" and years = "- 1" and e = ZeroDivisionError]
    raise_conditions [where rnd = exact and principal = 0 and n = 1 and rate = "- 1"
      and years = "- 1" and part = 25 and total = 0 and e = ValueError]
  by simp

section \<open>The amortization schedule\<close>

lemma schedule_loop_0: "schedule_loop rnd rm P A 0 =
     \<lparr>st_balance = P, st_payment = A, st_cum_interest = 0,
        st_cum_principal = 0, st_rows = []\<rparr>"
  by (simp add: schedule_loop_def)

lemma schedule_loop_Suc:
  "schedule_loop rnd rm P A (int (Suc n)) =
     schedule_step rnd rm (schedule_loop rnd rm P A (int n)) (int n + 1)"
proof -
  have "[1..int (Suc n)] = [1..int n] @ [int n + 1]"
    using upto_rec2 [of 1 "int (Suc n)"] by (simp add: add.commute)
  then show ?thesis by (simp add: schedule_loop_def)
qed



lemma schedule_step_length:
  "length (st_rows (schedule_step rnd rm s k)) = Suc (length (st_rows s))"
  by (simp add: schedule_step_def Let_def)

lemma schedule_step_nth:
  "i < length (st_rows s) \<Longrightarrow> st_rows (schedule_step rnd rm s k) ! i = st_rows s ! i"
  by (simp add: schedule_step_def Let_def nth_append)


lemma schedule_rows:
  fixes principal :: real
  assumes "monthly_payment rnd principal annual_rate months = Inr A"
  shows "\<exists>res. schedule rnd principal annual_rate months = Inr res \<and>
           lr_schedule res
             = st_rows (schedule_loop rnd (rnd (annual_rate / 12)) principal A months)"
  using assms by (simp add: schedule_def Let_def)


lemma rows_ok_snoc:
  assumes ok: "rows_ok rows"
    and pay: "row_payment r = row_principal_part r + row_interest_part r"
    and nonneg: "0 \<le> row_remaining_balance r"
    and below: "\<forall>row \<in> set rows. row_remaining_balance r \<le> row_remaining_balance row"
    and ci: "row_cumulative_interest r
               = sum_list (map row_interest_part rows) + row_interest_part r"
    and cp: "row_cumulative_principal r
               = sum_list (map row_principal_part rows) + row_principal_part r"
  shows "rows_ok (rows @ [r])"
proof -
  have cum: "row_cumulative_interest ((rows @ [r]) ! i)
          = sum_list (map row_interest_part (take (Suc i) (rows @ [r]))) \<and>
        row_cumulative_principal ((rows @ [r]) ! i)
          = sum_list (map row_principal_part (take (Suc i) (rows @ [r])))"
    if "i < length (rows @ [r])" for i
  proof (cases "i < length rows")
    case True
    then show ?thesis using ok by (simp add: rows_ok_def nth_append)
  next
    case False
    then have "i = length rows" using that by simp
    then show ?thesis using ci cp by simp
  qed
  show ?thesis
    unfolding rows_ok_def
  proof (intro conjI)
    show "\<forall>row\<in>set (rows @ [r]).
       row_payment row = row_principal_part row + row_interest_part row \<and>
       0 \<le> row_remaining_balance row"
      using ok pay nonneg by (auto simp add: rows_ok_def)
    show "sorted_wrt (\<ge>) (map row_remaining_balance (rows @ [r]))"
      using ok below by (simp add: rows_ok_def sorted_wrt_append)
    show "\<forall>i<length (rows @ [r]).
       row_cumulative_interest ((rows @ [r]) ! i) =
       sum_list (map row_interest_part (take (Suc i) (rows @ [r]))) \<and>
       row_cumulative_principal ((rows @ [r]) ! i) =
       sum_list (map row_principal_part (take (Suc i) (rows @ [r])))"
      using cum by blast
  qed
qed

lemma schedule_inv_step:
  assumes rm: "0 \<le> rm" and inv: "schedule_inv rm s"
  shows "schedule_inv rm (schedule_step exact rm s k)"
proof -
  define B where "B = st_balance s"
  define A where "A = st_payment s"
  have B0: "0 \<le> B" and BA: "B * rm \<le> A" and ok: "rows_ok (st_rows s)"
    and below: "\<forall>row \<in> set (st_rows s). B \<le> row_remaining_balance row"
    and ci: "st_cum_interest s = sum_list (map row_interest_part (st_rows s))"
    and cp: "st_cum_principal s = sum_list (map row_principal_part (st_rows s))"
    using inv by (simp_all add: schedule_inv_def B_def A_def)
  show ?thesis
  proof (cases "B < A - B * rm")
    case True
    define r where "r = \<lparr>row_month = k, row_payment = B + B * rm, row_principal_part = B,
              row_interest_part = B * rm, row_remaining_balance = 0,
              row_cumulative_interest = st_cum_interest s + B * rm,
              row_cumulative_principal = st_cum_principal s + B\<rparr>"
    have step: "schedule_step exact rm s k =
       \<lparr>st_balance = 0, st_payment = B + B * rm,
        st_cum_interest = st_cum_interest s + B * rm,
        st_cum_principal = st_cum_principal s + B, st_rows = st_rows s @ [r]\<rparr>"
      using True
      by (simp add: schedule_step_def Let_def exact_def B_def [symmetric] A_def [symmetric] r_def)
    have "rows_ok (st_rows s @ [r])"
      using ok below B0 by (intro rows_ok_snoc) (auto simp add: r_def ci cp)
    moreover have "0 \<le> B + B * rm" using B0 rm by simp
    moreover have "\<forall>row \<in> set (st_rows s). 0 \<le> row_remaining_balance row"
      using below B0 by force
    ultimately show ?thesis
      by (simp add: step schedule_inv_def ci cp r_def)
  next
    case False
    define p where "p = A - B * rm"
    have p0: "0 \<le> p" and pB: "p \<le> B" using BA False by (simp_all add: p_def)
    define r where "r = \<lparr>row_month = k, row_payment = A, row_principal_part = p,
              row_interest_part = B * rm, row_remaining_balance = B - p,
              row_cumulative_interest = st_cum_interest s + B * rm,
              row_cumulative_principal = st_cum_principal s + p\<rparr>"
    have step: "schedule_step exact rm s k =
       \<lparr>st_balance = B - p, st_payment = A,
        st_cum_interest = st_cum_interest s + B * rm,
        st_cum_principal = st_cum_principal s + p, st_rows = st_rows s @ [r]\<rparr>"
      using False pB
      by (simp add: schedule_step_def Let_def exact_def B_def [symmetric] A_def [symmetric]
          r_def p_def [symmetric])
    have low: "\<forall>row \<in> set (st_rows s). B - p \<le> row_remaining_balance row"
      using below p0 by force
    have "rows_ok (st_rows s @ [r])"
      using ok low pB by (intro rows_ok_snoc) (auto simp add: r_def ci cp p_def)
    moreover have "(B - p) * rm \<le> A"
    proof -
      have "(B - p) * rm \<le> B * rm" using p0 rm by (simp add: mult_right_mono)
      then show ?thesis using BA by linarith
    qed
    ultimately show ?thesis
      using low pB by (simp add: step schedule_inv_def ci cp r_def)
  qed
qed

lemma schedule_inv_loop:
  assumes rm: "0 \<le> rm" and P: "0 \<le> P" and PA: "P * rm \<le> A"
  shows "schedule_inv rm (schedule_loop exact rm P A (int n)) \<and>
         length (st_rows (schedule_loop exact rm P A (int n))) = n"
proof (induction n)
  case 0
  then show ?case using P PA
    by (simp add: schedule_loop_0 schedule_inv_def rows_ok_def)
next
  case (Suc n)
  then show ?case using schedule_inv_step [OF rm]
    by (simp only: schedule_loop_Suc) (simp add: schedule_step_def Let_def)
qed

lemma sum_list_take_nth:
  "i < length xs \<Longrightarrow> sum_list (map f (take (Suc i) xs)) = (\<Sum>j\<le>i. f (xs ! j))"
  for f :: "'a \<Rightarrow> real"
proof (induction i)
  case 0
  then show ?case by (cases xs) simp_all
next
  case (Suc i)
  then have "take (Suc (Suc i)) xs = take (Suc i) xs @ [xs ! Suc i]"
    by (simp add: take_Suc_conv_app_nth)
  then show ?case using Suc by simp
qed

lemma schedule_exact:
  fixes principal :: real
  assumes "monthly_payment exact principal annual_rate months = Inr A"
  shows "\<exists>res. schedule exact principal annual_rate months = Inr res \<and>
           lr_schedule res = st_rows (schedule_loop exact (annual_rate / 12) principal A months)"
  using assms by (simp add: schedule_def Let_def exact_def)

lemma payment_covers_interest:
  fixes principal annual_rate :: real
  assumes P: "0 < principal" and r: "0 \<le> annual_rate" and m: "1 \<le> months"
  shows "\<exists>A. monthly_payment exact principal annual_rate months = Inr A \<and>
             principal * (annual_rate / 12) \<le> A"
proof (cases "annual_rate = 0")
  case True
  then show ?thesis using P m monthly_payment_exact [OF P m, of annual_rate] by simp
next
  case False
  define rm where "rm = annual_rate / 12"
  define g where "g = (1 + rm) ^ nat months"
  have rm: "0 < rm" using False r by (simp add: rm_def)
  have "0 < nat months" using m by simp
  then have g1: "1 < g" unfolding g_def using rm by (simp add: one_less_power)
  have mp: "monthly_payment exact principal annual_rate months
              = Inr (principal * (rm * g) / (g - 1))"
    using monthly_payment_exact [OF P m, of annual_rate] False g1 by (simp add: rm_def g_def)
  have "principal * rm * (g - 1) \<le> principal * (rm * g)"
    using P rm by (simp add: algebra_simps)
  then have "principal * rm \<le> principal * (rm * g) / (g - 1)"
    using g1 by (simp add: pos_le_divide_eq)
  then show ?thesis using mp by (simp add: rm_def)
qed


text \<open>
  C3, as stated: for \<open>principal > 0\<close>, \<open>annual_rate \<ge> 0\<close> and \<open>months \<ge> 1\<close>, every row
  of the schedule has \<open>payment = principal_part + interest_part\<close>. On doubles it fails in
  the second row of \<^verbatim>\<open>schedule(1000.0, 0.05, 4)\<close>: the principal part is the rounded
  difference \<^verbatim>\<open>payment - interest\<close>, a tie that rounds up, and adding the interest back
  is a tie that rounds up again, to one unit in the last place above the payment; the
  exact sum differs from the payment too. The proof follows the run: the roundings of
  \<^verbatim>\<open>monthly_payment\<close> (\<open>rate\<close> to \<open>pay\<close>), then the interest, the principal part and the
  balance of month 1, then the interest and the principal part of month 2.
  \<open>binary64 (5 / 100)\<close> is the double written \<^verbatim>\<open>0.05\<close>.
\<close>

theorem schedule_payment_split_on_doubles:
  "(case schedule binary64 1000 (binary64 (5 / 100)) 4 of
      Inl e \<Rightarrow> False
    | Inr res \<Rightarrow>
        length (lr_schedule res) = 4 \<and>
        row_payment (lr_schedule res ! 1) = 8887909481110733 / 2 ^ 45 \<and>
        row_principal_part (lr_schedule res ! 1) = 4388865023559343 / 2 ^ 44 \<and>
        row_interest_part (lr_schedule res ! 1) = 220358867984095 / 2 ^ 46) \<and>
   binary64 (4388865023559343 / 2 ^ 44 + 220358867984095 / 2 ^ 46)
     = 4443954740555367 / 2 ^ 44 \<and>
   (8887909481110733 / 2 ^ 45 :: real) \<noteq> 4443954740555367 / 2 ^ 44 \<and>
   (8887909481110733 / 2 ^ 45 :: real) \<noteq> 4388865023559343 / 2 ^ 44 + 220358867984095 / 2 ^ 46"
proof -
  have rate: "binary64 (1 / 20) = 3602879701896397 / 2 ^ 56"
    by (rule binary64_eqI [where k = "- 5" and m = 7205759403792794])
       (simp_all add: power_int_minus power_divide)
  have rm: "binary64 (3602879701896397 / 864691128455135232) = 4803839602528529 / 2 ^ 60"
    by (rule binary64_eqI [where k = "- 8" and m = 4803839602528529])
       (simp_all add: power_int_minus power_divide)
  have base: "binary64 (1157725344209375505 / 1152921504606846976) = 4522364625817873 / 2 ^ 52"
    by (rule binary64_eqI [where k = 0 and m = 4522364625817873])
       (simp_all add: power_int_minus power_divide)
  have g: "binary64 ((4522364625817873 / 4503599627370496) ^ 4) = 2289565025301751 / 2 ^ 51"
    by (rule binary64_eqI [where k = 0 and m = 4579130050603502])
       (simp_all add: power_int_minus power_divide)
  have rm_g: "binary64 (10998703141108784967000811154279 / 2596148429267413814265248164610048)
                = 2442202693655201 / 2 ^ 59"
    by (rule binary64_eqI [where k = "- 8" and m = 4884405387310402])
       (simp_all add: power_int_minus power_divide)
  have num: "binary64 (305275336706900125 / 72057594037927936) = 2384963568022657 / 2 ^ 49"
    by (rule binary64_eqI [where k = 2 and m = 4769927136045314])
       (simp_all add: power_int_minus power_divide)
  have den: "binary64 (37765211616503 / 2251799813685248) = 37765211616503 / 2 ^ 51"
    by (rule binary64_eqI [where k = "- 6" and m = 4833947086912384])
       (simp_all add: power_int_minus power_divide)
  have pay: "binary64 (9539854272090628 / 37765211616503) = 8887909481110733 / 2 ^ 45"
    by (rule binary64_eqI [where k = 7 and m = 8887909481110733])
       (simp_all add: power_int_minus power_divide)
  have interest1: "binary64 (600479950316066125 / 144115188075855872) = 4691249611844267 / 2 ^ 50"
    by (rule binary64_eqI [where k = 2 and m = 4691249611844267])
       (simp_all add: power_int_minus power_divide)
  have princ1: "binary64 (279721853783699189 / 1125899906842624) = 1092663491342575 / 2 ^ 42"
    by (rule binary64_eqI [where k = 7 and m = 8741307930740600])
       (simp_all add: power_int_minus power_divide)
  have balance1: "binary64 (3305383019761425 / 4398046511104) = 3305383019761425 / 2 ^ 42"
    by (rule binary64_eqI [where k = 9 and m = 6610766039522850])
       (simp_all add: power_int_minus power_divide)
  have interest2: "binary64 (15878529851855272789004336193825 / 5070602400912917605986812821504)
                     = 220358867984095 / 2 ^ 46"
    by (rule binary64_eqI [where k = 1 and m = 7051483775491040])
       (simp_all add: power_int_minus power_divide)
  have princ2: "binary64 (17555460094237371 / 70368744177664) = 4388865023559343 / 2 ^ 44"
    by code_simp
  have total2: "binary64 (17775818962221467 / 70368744177664) = 4443954740555367 / 2 ^ 44"
    by code_simp
  note doubles = rate rm base g rm_g num den pay interest1 princ1 balance1 interest2 princ2 total2
  define rm :: real where "rm = 4803839602528529 / 2 ^ 60"
  define A :: real where "A = 8887909481110733 / 2 ^ 45"
  define s0 where "s0 = \<lparr>st_balance = 1000, st_payment = A, st_cum_interest = 0,
                          st_cum_principal = 0, st_rows = []\<rparr>"
  define s1 where "s1 = schedule_step binary64 rm s0 1"
  define s2 where "s2 = schedule_step binary64 rm s1 2"
  define s3 where "s3 = schedule_step binary64 rm s2 3"
  define s4 where "s4 = schedule_step binary64 rm s3 4"
  have mp: "monthly_payment binary64 1000 (binary64 (5 / 100)) 4 = Inr A"
    by (simp add: monthly_payment_def py_pow_int_def py_div_def Let_def A_def doubles)
  have rmv: "binary64 (binary64 (5 / 100) / 12) = rm"
    by (simp add: rm_def doubles)
  obtain res where res: "schedule binary64 1000 (binary64 (5 / 100)) 4 = Inr res"
    and rows: "lr_schedule res = st_rows (schedule_loop binary64 rm 1000 A 4)"
    using schedule_rows [OF mp] unfolding rmv by blast
  have months: "[1..4 :: int] = [1, 2, 3, 4]" by code_simp
  have loop: "schedule_loop binary64 rm 1000 A 4 = s4"
    by (simp add: schedule_loop_def months s4_def s3_def s2_def s1_def s0_def)
  have s1: "st_balance s1 = 3305383019761425 / 2 ^ 42" "st_payment s1 = A"
    "length (st_rows s1) = 1"
    by (simp_all add: s1_def s0_def schedule_step_def Let_def rm_def A_def doubles)
  have s2: "length (st_rows s2) = 2" "row_payment (st_rows s2 ! 1) = A"
    "row_principal_part (st_rows s2 ! 1) = 4388865023559343 / 2 ^ 44"
    "row_interest_part (st_rows s2 ! 1) = 220358867984095 / 2 ^ 46"
    by (simp_all add: s2_def schedule_step_def Let_def s1 nth_append rm_def A_def doubles)
  have len: "length (st_rows s4) = 4"
    by (simp add: s4_def s3_def schedule_step_length s2)
  have row: "st_rows s4 ! 1 = st_rows s2 ! 1"
    by (simp add: s4_def s3_def schedule_step_nth schedule_step_length s2)
  have sum: "binary64 (4388865023559343 / 2 ^ 44 + 220358867984095 / 2 ^ 46)
               = 4443954740555367 / 2 ^ 44"
    by (simp add: doubles)
  have rows4: "lr_schedule res = st_rows s4" using rows loop by simp
  have "length (lr_schedule res) = 4"
    "row_payment (lr_schedule res ! 1) = 8887909481110733 / 2 ^ 45"
    "row_principal_part (lr_schedule res ! 1) = 4388865023559343 / 2 ^ 44"
    "row_interest_part (lr_schedule res ! 1) = 220358867984095 / 2 ^ 46"
    unfolding rows4 len row s2 A_def by simp_all
  then show ?thesis using sum unfolding res by simp
qed

text \<open>
  C3, amended: in exact arithmetic, for \<open>principal > 0\<close>, \<open>annual_rate \<ge> 0\<close> and
  \<open>months \<ge> 1\<close>, \<^verbatim>\<open>schedule\<close> returns \<open>months\<close> rows; in every row
  \<open>payment = principal_part + interest_part\<close> and \<open>remaining_balance \<ge> 0\<close>;
  \<open>cumulative_interest\<close> and \<open>cumulative_principal\<close> of row \<open>i\<close> are the sums of
  \<open>interest_part\<close> and \<open>principal_part\<close> over the rows up to \<open>i\<close>; and
  \<open>remaining_balance\<close> does not increase from a row to the next.
\<close>

theorem schedule_row_invariants:
  fixes principal annual_rate :: real
  assumes P: "0 < principal" and r: "0 \<le> annual_rate" and m: "1 \<le> months"
  shows "\<exists>res. schedule exact principal annual_rate months = Inr res \<and>
     length (lr_schedule res) = nat months \<and>
     (\<forall>i < length (lr_schedule res).
        row_payment (lr_schedule res ! i)
          = row_principal_part (lr_schedule res ! i) + row_interest_part (lr_schedule res ! i) \<and>
        0 \<le> row_remaining_balance (lr_schedule res ! i) \<and>
        row_cumulative_interest (lr_schedule res ! i)
          = (\<Sum>j\<le>i. row_interest_part (lr_schedule res ! j)) \<and>
        row_cumulative_principal (lr_schedule res ! i)
          = (\<Sum>j\<le>i. row_principal_part (lr_schedule res ! j))) \<and>
     (\<forall>i. Suc i < length (lr_schedule res) \<longrightarrow>
        row_remaining_balance (lr_schedule res ! Suc i)
          \<le> row_remaining_balance (lr_schedule res ! i))"
proof -
  obtain A where A: "monthly_payment exact principal annual_rate months = Inr A"
    and PA: "principal * (annual_rate / 12) \<le> A"
    using payment_covers_interest [OF P r m] by blast
  obtain res where res: "schedule exact principal annual_rate months = Inr res"
    and rows: "lr_schedule res
                 = st_rows (schedule_loop exact (annual_rate / 12) principal A months)"
    using schedule_exact [OF A] by blast
  have months: "months = int (nat months)" using m by simp
  have "schedule_inv (annual_rate / 12)
          (schedule_loop exact (annual_rate / 12) principal A (int (nat months))) \<and>
        length (st_rows (schedule_loop exact (annual_rate / 12) principal A (int (nat months))))
          = nat months"
    using r P PA by (intro schedule_inv_loop) simp_all
  then have ok: "rows_ok (lr_schedule res)" and len: "length (lr_schedule res) = nat months"
    using rows months by (simp_all add: schedule_inv_def)
  have rowwise: "row_payment (lr_schedule res ! i)
          = row_principal_part (lr_schedule res ! i) + row_interest_part (lr_schedule res ! i) \<and>
        0 \<le> row_remaining_balance (lr_schedule res ! i) \<and>
        row_cumulative_interest (lr_schedule res ! i)
          = (\<Sum>j\<le>i. row_interest_part (lr_schedule res ! j)) \<and>
        row_cumulative_principal (lr_schedule res ! i)
          = (\<Sum>j\<le>i. row_principal_part (lr_schedule res ! j))"
    if i: "i < length (lr_schedule res)" for i
  proof -
    have "lr_schedule res ! i \<in> set (lr_schedule res)" using i by simp
    then show ?thesis using ok i by (simp add: rows_ok_def sum_list_take_nth)
  qed
  have mono: "row_remaining_balance (lr_schedule res ! Suc i)
          \<le> row_remaining_balance (lr_schedule res ! i)"
    if i: "Suc i < length (lr_schedule res)" for i
  proof -
    have "sorted_wrt (\<ge>) (map row_remaining_balance (lr_schedule res))"
      using ok by (simp add: rows_ok_def)
    then have "map row_remaining_balance (lr_schedule res) ! i
                 \<ge> map row_remaining_balance (lr_schedule res) ! Suc i"
      using i sorted_wrt_nth_less [of "(\<ge>)" "map row_remaining_balance (lr_schedule res)"
          i "Suc i"]
      by simp
    then show ?thesis using i by simp
  qed
  show ?thesis using res len rowwise mono by blast
qed

theorem schedule_row_invariants_witness:
  "(0::real) < 1000 \<and> (0::real) \<le> 12 / 100 \<and> (1::int) \<le> 3 \<and>
   (\<exists>res. schedule exact 1000 (12 / 100) 3 = Inr res \<and> length (lr_schedule res) = 3 \<and>
      row_payment (lr_schedule res ! 0)
        = row_principal_part (lr_schedule res ! 0) + row_interest_part (lr_schedule res ! 0) \<and>
      row_payment (lr_schedule res ! 1)
        = row_principal_part (lr_schedule res ! 1) + row_interest_part (lr_schedule res ! 1) \<and>
      row_payment (lr_schedule res ! 2)
        = row_principal_part (lr_schedule res ! 2) + row_interest_part (lr_schedule res ! 2) \<and>
      0 \<le> row_remaining_balance (lr_schedule res ! 2) \<and>
      row_remaining_balance (lr_schedule res ! 2) \<le> row_remaining_balance (lr_schedule res ! 1) \<and>
      row_remaining_balance (lr_schedule res ! 1) \<le> row_remaining_balance (lr_schedule res ! 0) \<and>
      row_cumulative_interest (lr_schedule res ! 2)
        = row_interest_part (lr_schedule res ! 0) + row_interest_part (lr_schedule res ! 1)
          + row_interest_part (lr_schedule res ! 2) \<and>
      row_cumulative_principal (lr_schedule res ! 2)
        = row_principal_part (lr_schedule res ! 0) + row_principal_part (lr_schedule res ! 1)
          + row_principal_part (lr_schedule res ! 2))"
proof -
  obtain res where res: "schedule exact 1000 (12 / 100) 3 = Inr res"
    and len: "length (lr_schedule res) = nat 3"
    and rows: "\<And>i. i < length (lr_schedule res) \<Longrightarrow>
        row_payment (lr_schedule res ! i)
          = row_principal_part (lr_schedule res ! i) + row_interest_part (lr_schedule res ! i) \<and>
        0 \<le> row_remaining_balance (lr_schedule res ! i) \<and>
        row_cumulative_interest (lr_schedule res ! i)
          = (\<Sum>j\<le>i. row_interest_part (lr_schedule res ! j)) \<and>
        row_cumulative_principal (lr_schedule res ! i)
          = (\<Sum>j\<le>i. row_principal_part (lr_schedule res ! j))"
    and mono: "\<And>i. Suc i < length (lr_schedule res) \<Longrightarrow>
        row_remaining_balance (lr_schedule res ! Suc i)
          \<le> row_remaining_balance (lr_schedule res ! i)"
    using schedule_row_invariants [of 1000 "12 / 100" 3] by auto
  have len3: "length (lr_schedule res) = Suc (Suc (Suc 0))" using len by simp
  show ?thesis
    using res len3 rows [of 0] rows [of "Suc 0"] rows [of "Suc (Suc 0)"]
      mono [of 0] mono [of "Suc 0"]
    by (simp add: numeral_2_eq_2)
qed




section \<open>The internal rate of return\<close>

subsection \<open>In exact arithmetic\<close>

lemma npv_from_exact:
  assumes "1 + r \<noteq> 0"
  shows "npv_from exact r t acc cfs
           = Inr (acc + (\<Sum>i<length cfs. cfs ! i / (1 + r) ^ (t + i)))"
proof (induction cfs arbitrary: t acc)
  case Nil
  then show ?case by simp
next
  case (Cons cf cfs)
  have "(\<Sum>i<Suc (length cfs). (cf # cfs) ! i / (1 + r) ^ (t + i))
          = (cf # cfs) ! 0 / (1 + r) ^ (t + 0)
            + (\<Sum>i<length cfs. (cf # cfs) ! Suc i / (1 + r) ^ (t + Suc i))"
    by (rule sum.lessThan_Suc_shift)
  then have shift: "(\<Sum>i<length (cf # cfs). (cf # cfs) ! i / (1 + r) ^ (t + i))
          = cf / (1 + r) ^ t + (\<Sum>i<length cfs. cfs ! i / (1 + r) ^ (Suc t + i))"
    by simp
  have "npv_from exact r t acc (cf # cfs)
          = npv_from exact r (Suc t) (acc + cf / (1 + r) ^ t) cfs"
    using assms by (simp add: py_pow_int_def py_div_def exact_def)
  also have "\<dots> = Inr (acc + cf / (1 + r) ^ t
                        + (\<Sum>i<length cfs. cfs ! i / (1 + r) ^ (Suc t + i)))"
    by (rule Cons.IH)
  finally show ?case by (simp only: shift add.assoc)
qed

lemma npv_exact:
  "1 + r \<noteq> 0 \<Longrightarrow> npv exact cfs r = Inr (\<Sum>t<length cfs. cfs ! t / (1 + r) ^ t)"
  by (simp add: npv_def npv_from_exact)

lemma bisect_loop_exact:
  assumes "- 1 < lo" "lo \<le> hi"
  shows "\<exists>r. bisect_loop exact cfs tol k lo hi = Inr r \<and> lo \<le> r \<and> r \<le> hi"
  using assms
proof (induction k arbitrary: lo hi)
  case 0
  have "bisect_loop exact cfs tol 0 lo hi = Inr ((lo + hi) / 2)" by (simp add: exact_def)
  moreover have "lo \<le> (lo + hi) / 2" "(lo + hi) / 2 \<le> hi" using 0 by simp_all
  ultimately show ?case by blast
next
  case (Suc k)
  define mid where "mid = (lo + hi) / 2"
  have mid: "lo \<le> mid" "mid \<le> hi" "- 1 < mid" using Suc.prems by (simp_all add: mid_def)
  have "1 + mid \<noteq> 0" using mid(3) by linarith
  then have n1: "1 + (lo + hi) / 2 \<noteq> 0" unfolding mid_def .
  have n2: "1 + lo \<noteq> 0" using Suc.prems by simp
  obtain r1 where r1: "bisect_loop exact cfs tol k lo mid = Inr r1" "lo \<le> r1" "r1 \<le> mid"
    using Suc.IH [of lo mid] Suc.prems mid by blast
  obtain r2 where r2: "bisect_loop exact cfs tol k mid hi = Inr r2" "mid \<le> r2" "r2 \<le> hi"
    using Suc.IH [of mid hi] mid by blast
  have "bisect_loop exact cfs tol (Suc k) lo hi = Inr mid \<or>
        bisect_loop exact cfs tol (Suc k) lo hi = bisect_loop exact cfs tol k lo mid \<or>
        bisect_loop exact cfs tol (Suc k) lo hi = bisect_loop exact cfs tol k mid hi"
    by (simp add: Let_def exact_def npv_exact [OF n1] npv_exact [OF n2] mid_def)
  then show ?case using r1 r2 mid by auto
qed

lemma irr_bisect_exact:
  "\<exists>r. - 99 / 100 \<le> r \<and> r \<le> 10 \<and>
       irr_bisect exact cfs tol max_iter =
         (if 0 < (\<Sum>t<length cfs. cfs ! t / (1 + (- 99 / 100)) ^ t) *
                 (\<Sum>t<length cfs. cfs ! t / (1 + 10) ^ t)
          then Inr None else Inr (Some r))"
proof -
  obtain r where r: "bisect_loop exact cfs tol (nat max_iter) (- 99 / 100) 10 = Inr r"
     "- 99 / 100 \<le> r" "r \<le> 10"
    using bisect_loop_exact [of "- 99 / 100" 10 cfs tol "nat max_iter"] by auto
  have n1: "1 + (- 99 / 100 :: real) \<noteq> 0" and n2: "1 + (10 :: real) \<noteq> 0" by simp_all
  have "irr_bisect exact cfs tol max_iter =
         (if 0 < (\<Sum>t<length cfs. cfs ! t / (1 + (- 99 / 100)) ^ t) *
                 (\<Sum>t<length cfs. cfs ! t / (1 + 10) ^ t)
          then Inr None else Inr (Some r))"
    unfolding irr_bisect_def Let_def exact_def [of "- 99 / 100"]
    by (simp only: npv_exact [OF n1] npv_exact [OF n2] r sum.case if_True if_False)
       (simp add: exact_def)
  then show ?thesis using r by blast
qed


lemma irr_bisect_exact_all_positive:
  assumes "cfs \<noteq> []" "\<forall>c \<in> set cfs. 0 < c"
  shows "irr_bisect exact cfs tol max_iter = Inr None"
proof -
  have pos: "0 < (\<Sum>t<length cfs. cfs ! t / (1 + r) ^ t)" if "0 < 1 + r" for r :: real
  proof (rule sum_pos)
    show "finite {..<length cfs}" by simp
    show "{..<length cfs} \<noteq> {}" using assms(1) by (simp add: lessThan_empty_iff)
    show "0 < cfs ! i / (1 + r) ^ i" if "i \<in> {..<length cfs}" for i
      using that assms \<open>0 < 1 + r\<close> by simp
  qed
  have "0 < (\<Sum>t<length cfs. cfs ! t / (1 + (- 99 / 100)) ^ t) *
                 (\<Sum>t<length cfs. cfs ! t / (1 + 10) ^ t)"
    using pos [of "- 99 / 100"] pos [of 10] by simp
  then show ?thesis using irr_bisect_exact [of cfs tol max_iter] by auto
qed

subsection \<open>The bracket, in exact arithmetic and on doubles\<close>

lemma sound_rounding_exact: "sound_rounding exact"
  by (simp add: sound_rounding_def exact_def)

lemma sound_rounding_binary64: "sound_rounding binary64"
proof -
  have "binary64 (2 * x) = 2 * x" if "binary64 x = x" for x
  proof -
    have "representable x" using that binary64_representable [of x] by simp
    then have "representable (2 * x)" by (rule representable_double)
    then show ?thesis by (rule binary64_fixes_representable)
  qed
  then show ?thesis
    by (simp add: sound_rounding_def binary64_mono binary64_idempotent)
qed

lemma midpoint_in_bracket:
  assumes s: "sound_rounding rnd" and lo: "rnd lo = lo" and hi: "rnd hi = hi"
    and le: "lo \<le> hi"
  shows "lo \<le> rnd (rnd (lo + hi) / 2) \<and> rnd (rnd (lo + hi) / 2) \<le> hi \<and>
         rnd (rnd (rnd (lo + hi) / 2)) = rnd (rnd (lo + hi) / 2)"
proof -
  have mono: "rnd x \<le> rnd y" if "x \<le> y" for x y
    using s that by (simp add: sound_rounding_def)
  have dbl: "rnd (2 * x) = 2 * x" if "rnd x = x" for x
    using s that by (simp add: sound_rounding_def)
  have idem: "rnd (rnd x) = rnd x" for x using s by (simp add: sound_rounding_def)
  have "rnd (2 * lo) \<le> rnd (lo + hi)" using le by (intro mono) simp
  then have "2 * lo \<le> rnd (lo + hi)" using dbl [OF lo] by simp
  then have "lo \<le> rnd (lo + hi) / 2" by simp
  then have "rnd lo \<le> rnd (rnd (lo + hi) / 2)" by (rule mono)
  then have a: "lo \<le> rnd (rnd (lo + hi) / 2)" using lo by simp
  have "rnd (lo + hi) \<le> rnd (2 * hi)" using le by (intro mono) simp
  then have "rnd (lo + hi) \<le> 2 * hi" using dbl [OF hi] by simp
  then have "rnd (lo + hi) / 2 \<le> hi" by simp
  then have "rnd (rnd (lo + hi) / 2) \<le> rnd hi" by (rule mono)
  then have b: "rnd (rnd (lo + hi) / 2) \<le> hi" using hi by simp
  show ?thesis using a b idem by simp
qed

lemma bisect_loop_in_bracket:
  assumes s: "sound_rounding rnd"
  shows "rnd lo = lo \<Longrightarrow> rnd hi = hi \<Longrightarrow> lo \<le> hi \<Longrightarrow>
         bisect_loop rnd cfs tol k lo hi = Inr r \<Longrightarrow> lo \<le> r \<and> r \<le> hi"
proof (induction k arbitrary: lo hi)
  case 0
  then show ?case using midpoint_in_bracket [OF s, of lo hi] by auto
next
  case (Suc k)
  define mid where "mid = rnd (rnd (lo + hi) / 2)"
  have mid: "lo \<le> mid" "mid \<le> hi" "rnd mid = mid"
    using midpoint_in_bracket [OF s Suc.prems(1,2,3)] by (simp_all add: mid_def)
  have left: "lo \<le> r \<and> r \<le> mid" if "bisect_loop rnd cfs tol k lo mid = Inr r"
    using Suc.IH [of lo mid] Suc.prems(1) mid that by simp
  have right: "mid \<le> r \<and> r \<le> hi" if "bisect_loop rnd cfs tol k mid hi = Inr r"
    using Suc.IH [of mid hi] Suc.prems(2) mid that by simp
  have "r = mid \<or> bisect_loop rnd cfs tol k lo mid = Inr r \<or>
        bisect_loop rnd cfs tol k mid hi = Inr r"
    using Suc.prems(4)
    by (auto simp add: Let_def mid_def [symmetric] split: sum.splits if_splits)
  then show ?case using left right mid by auto
qed

lemma lo_is_double:
  "binary64 (- 99 / 100) = - 4458563631096791 / 2 ^ 52" "binary64 10 = 10"
  by code_simp+

lemma irr_bisect_in_domain:
  assumes s: "sound_rounding rnd"
    and lo: "- 99 / 100 \<le> rnd (- 99 / 100)" "rnd (- 99 / 100) \<le> 10" and hi: "rnd 10 = 10"
    and run: "irr_bisect rnd cashflows tol max_iter = Inr (Some r)"
  shows "- 99 / 100 \<le> r \<and> r \<le> 10"
proof -
  have idem: "rnd (rnd (- 99 / 100)) = rnd (- 99 / 100)"
    using s by (simp add: sound_rounding_def)
  have "bisect_loop rnd cashflows tol (nat max_iter) (rnd (- 99 / 100)) 10 = Inr r"
    using run by (auto simp add: irr_bisect_def Let_def split: sum.splits if_splits)
  then have "rnd (- 99 / 100) \<le> r \<and> r \<le> 10"
    using bisect_loop_in_bracket [OF s idem hi lo(2)] by simp
  then show ?thesis using lo(1) by linarith
qed

lemma lo_bounds:
  "- 99 / 100 \<le> binary64 (- 99 / 100)" "binary64 (- 99 / 100) \<le> 10"
  unfolding lo_is_double by simp_all


text \<open>
  C10. Whenever \<^verbatim>\<open>irr_bisect\<close> returns a rate, the rate lies in the closed interval
  \<open>[- 0.99, 10]\<close>, for every cashflow list, tolerance and iteration count, in exact
  arithmetic and on doubles: the bracket starts as the domain (the double written
  \<^verbatim>\<open>-0.99\<close> is a little above \<open>- 99 / 100\<close>), each pass replaces one end by the
  midpoint, the rounded midpoint stays inside the bracket, and every returned value is
  a midpoint of the bracket.
\<close>

theorem irr_bisect_within_domain:
  assumes "rnd = exact \<or> rnd = binary64"
    and run: "irr_bisect rnd cashflows tol max_iter = Inr (Some r)"
  shows "- 99 / 100 \<le> r \<and> r \<le> 10"
  using assms(1)
proof
  assume e: "rnd = exact"
  have "- 99 / 100 \<le> exact (- 99 / 100)" "exact (- 99 / 100) \<le> 10" "exact 10 = 10"
    by (simp_all add: exact_def)
  then show ?thesis
    using run unfolding e by (rule irr_bisect_in_domain [OF sound_rounding_exact])
next
  assume b: "rnd = binary64"
  show ?thesis
    using lo_bounds lo_is_double(2) run unfolding b
    by (rule irr_bisect_in_domain [OF sound_rounding_binary64])
qed

theorem irr_bisect_within_domain_witness:
  "irr_bisect exact [- 1000, 1100] (1 / 10 ^ 8) 1 = Inr (Some (703 / 400)) \<and>
   - 99 / 100 \<le> (703 / 400 :: real) \<and> (703 / 400 :: real) \<le> 10 \<and>
   irr_bisect binary64 [- 1000, 1100] (binary64 (1 / 10 ^ 8)) 1
     = Inr (Some (3957538172551823 / 2 ^ 51)) \<and>
   - 99 / 100 \<le> (3957538172551823 / 2 ^ 51 :: real) \<and>
   (3957538172551823 / 2 ^ 51 :: real) \<le> 10"
proof -
  have run: "irr_bisect exact [- 1000, 1100] (1 / 10 ^ 8) 1 = Inr (Some (703 / 400))"
    by (simp add: irr_bisect_def npv_def py_pow_int_def py_div_def exact_def Let_def)
  have run64: "irr_bisect binary64 [- 1000, 1100] (binary64 (1 / 10 ^ 8)) 1
                 = Inr (Some (3957538172551823 / 2 ^ 51))"
    by code_simp
  show ?thesis
    using run irr_bisect_within_domain [OF disjI1 [OF refl] run]
      run64 irr_bisect_within_domain [OF disjI2 [OF refl] run64]
    by simp
qed

subsection \<open>On doubles: the discount factor underflows\<close>

text \<open>
  The first thing \<^verbatim>\<open>irr_bisect\<close> does is \<^verbatim>\<open>npv(lo)\<close> with \<open>lo = - 0.99\<close>. The base
  \<open>1 + lo\<close> is the double \<open>45035996273705 / 2 ^ 52\<close>, a little above \<open>0.01\<close>, and its
  163rd power is below \<open>2 ^ - 1075\<close>, half the least positive double: the power rounds
  to \<open>0.0\<close> and \<^verbatim>\<open>cf / 0.0\<close> raises.
\<close>

lemma npv_from_zero_discount:
  assumes "i < length cfs" "rnd (rnd (1 + r) powi int (t + i)) = 0"
  shows "npv_from rnd r t acc cfs = Inl ZeroDivisionError"
  using assms
proof (induction cfs arbitrary: t acc i)
  case Nil
  then show ?case by simp
next
  case (Cons cf cfs)
  show ?case
  proof (cases i)
    case 0
    then show ?thesis using Cons.prems by (simp add: py_pow_int_def py_div_def)
  next
    case (Suc j)
    then have "npv_from rnd r (Suc t) a cfs = Inl ZeroDivisionError" for a
      using Cons.prems Cons.IH [of j "Suc t" a] by simp
    then show ?thesis by (simp add: py_pow_int_def py_div_def)
  qed
qed

lemma lo_plus_one:
  "binary64 (1 + binary64 (- 99 / 100)) = 45035996273705 / 2 ^ 52"
  by code_simp

lemma discount_underflows:
  "binary64 (binary64 (1 + binary64 (- 99 / 100)) powi 163) = 0"
proof -
  define b :: real where "b = 45035996273705 / 2 ^ 52"
  define u where "u = b ^ 5 * 2 ^ 33"
  define v where "v = b ^ 3 * 2 ^ 19"
  have b0: "0 < b" by (simp add: b_def)
  have u: "0 \<le> u" "u < 1" using b0 by (simp_all add: u_def) (simp add: b_def power_divide)
  have v: "0 \<le> v" "v < 1" using b0 by (simp_all add: v_def) (simp add: b_def power_divide)
  have "u ^ 32 \<le> 1" using u by (simp add: power_le_one)
  moreover have "0 \<le> u ^ 32" using u by simp
  ultimately have "u ^ 32 * v \<le> 1 * v" using v by (intro mult_right_mono) simp_all
  then have lt: "u ^ 32 * v < 1" using v by linarith
  have "u ^ 32 * v = (b ^ (5 * 32) * b ^ 3) * ((2::real) ^ (33 * 32) * 2 ^ 19)"
    unfolding u_def v_def by (simp only: power_mult_distrib power_mult [symmetric] mult_ac)
  also have "\<dots> = b ^ (5 * 32 + 3) * 2 ^ (33 * 32 + 19)"
    by (simp only: power_add)
  finally have "u ^ 32 * v = b ^ 163 * 2 ^ 1075" by (simp del: power_numeral)
  then have "b ^ 163 * 2 ^ 1075 < 1" using lt by simp
  moreover have "0 < b ^ 163" using b0 by simp
  ultimately have "binary64 (b ^ 163) = 0" by (intro binary64_underflow)
  moreover have "b powi 163 = b ^ 163" by simp
  ultimately show ?thesis unfolding lo_plus_one b_def [symmetric] by simp
qed

lemma irr_bisect_long_cashflows:
  assumes "164 \<le> length cashflows"
  shows "irr_bisect binary64 cashflows tol max_iter = Inl ZeroDivisionError"
proof -
  have "npv binary64 cashflows (binary64 (- 99 / 100)) = Inl ZeroDivisionError"
    unfolding npv_def using assms discount_underflows
    by (intro npv_from_zero_discount [of 163]) simp_all
  then show ?thesis by (simp add: irr_bisect_def)
qed

text \<open>
  C4 says that \<^verbatim>\<open>irr_bisect\<close> never raises and returns \<^verbatim>\<open>None\<close> exactly when
  \<open>npv(- 0.99) * npv(10.0) > 0\<close>, in particular for every non-empty all-positive list. In
  exact arithmetic that is so (\<open>irr_bisect_exact\<close>, \<open>irr_bisect_exact_all_positive\<close>).
  The run on doubles of \<^verbatim>\<open>irr_bisect([1.0] * 164)\<close>, with the default tolerance and
  iteration count, raises \<^verbatim>\<open>ZeroDivisionError\<close> instead of returning \<^verbatim>\<open>None\<close>, and so does
  every list of 164 or more flows (\<open>irr_bisect_long_cashflows\<close>).
\<close>

theorem irr_bisect_raises_on_164_flows:
  "irr_bisect binary64 (replicate 164 1) (binary64 (1 / 10 ^ 8)) 200 = Inl ZeroDivisionError"
  by (rule irr_bisect_long_cashflows) simp

end
